theory Spec2Isabelle
  imports Complex_Main "HOL-Library.Multiset"
begin

section \<open>Values of the embedding\<close>

text \<open>
  The embedding follows \<^verbatim>\<open>src/src/index.ts\<close>. JavaScript numbers that hold indices and
  counts are \<open>int\<close>: the arithmetic of the code on them is exact as long as the numbers
  stay below \<open>2^53\<close>, as the indices and lengths of sequences do, and a statement on
  numbers that are arguments carries that bound. Similarity ratios are \<open>real\<close> (the
  quotient \<open>2.0 * matches / length\<close> before rounding; rounding to a double is monotone, so
  the order of two ratios and the bounds 0 and 1 are those of the quotients). A thrown
  exception is the \<open>Inl\<close> branch of a sum.

  A JavaScript object used as a dictionary is a map over its own properties, together
  with what the code reads through the prototype chain: an assignment to the key
  \<^verbatim>\<open>__proto__\<close> creates no own property, and a read that is not guarded by \<^verbatim>\<open>_has\<close> finds
  the members of \<^verbatim>\<open>Object.prototype\<close> (\<open>proto_key\<close> and \<open>inherited\<close> below).

  A string is a list of \<open>char\<close>, the code units below 256. No such string holds a
  surrogate pair, so \<^verbatim>\<open>for (elt of s)\<close> visits the same elements as \<^verbatim>\<open>s[i]\<close> does.

  A sequence is \<^verbatim>\<open>string | string[]\<close>. A string is compared by value by \<^verbatim>\<open>===\<close>, an
  array by reference: \<open>Arr r xs\<close> is the array at reference \<open>r\<close> whose elements are \<open>xs\<close>.
  The elements of a string are its one-character strings.
\<close>

datatype error =
    TypeError
  | RangeError
  | AssertionError
  | NMustBePositive int
  | CutoffOutOfRange real
  | UnknownDeltaChoice int

datatype seq = Str string | Arr nat "string list"

fun elems :: "seq \<Rightarrow> string list" where
  "elems (Str s) = map (\<lambda>c. [c]) s"
| "elems (Arr r xs) = xs"

definition seq_length :: "seq \<Rightarrow> int" where
  "seq_length s = int (length (elems s))"

text \<open>\<^verbatim>\<open>x === y\<close> on sequences.\<close>

fun strict_eq :: "seq \<Rightarrow> seq \<Rightarrow> bool" where
  "strict_eq (Str s) (Str t) = (s = t)"
| "strict_eq (Arr r xs) (Arr r' ys) = (r = r')"
| "strict_eq (Str s) (Arr r ys) = False"
| "strict_eq (Arr r xs) (Str t) = False"

text \<open>\<^verbatim>\<open>xs[i]\<close>: \<open>None\<close> is \<^verbatim>\<open>undefined\<close>, the value of a read out of range.\<close>

definition item :: "'a list \<Rightarrow> int \<Rightarrow> 'a option" where
  "item xs i = (if 0 \<le> i \<and> i < int (length xs) then Some (xs ! nat i) else None)"

text \<open>The property key an element is converted to; \<^verbatim>\<open>undefined\<close> becomes \<^verbatim>\<open>"undefined"\<close>.\<close>

definition key_of :: "string option \<Rightarrow> string" where
  "key_of e = (case e of None \<Rightarrow> ''undefined'' | Some s \<Rightarrow> s)"

text \<open>\<^verbatim>\<open>_has(obj, key)\<close>, for an object that is defined.\<close>

definition has :: "('k \<rightharpoonup> 'v) \<Rightarrow> 'k \<Rightarrow> bool" where
  "has obj k = (obj k \<noteq> None)"

text \<open>
  The key \<^verbatim>\<open>__proto__\<close> is an accessor of \<^verbatim>\<open>Object.prototype\<close>: \<^verbatim>\<open>obj['__proto__'] = v\<close> sets the
  prototype of \<open>obj\<close> when \<open>v\<close> is an object and does nothing otherwise; in both cases \<open>obj\<close>
  gets no own property. \<open>assign\<close> is \<^verbatim>\<open>obj[k] = v\<close> on the own properties.
\<close>

definition proto_key :: string where
  "proto_key = ''__proto__''"

definition assign :: "(string \<rightharpoonup> 'v) \<Rightarrow> string \<Rightarrow> 'v \<Rightarrow> (string \<rightharpoonup> 'v)" where
  "assign obj k v = (if k = proto_key then obj else obj(k \<mapsto> v))"

text \<open>
  The names of the members of \<^verbatim>\<open>Object.prototype\<close> (ECMAScript, with its annex B): what
  \<^verbatim>\<open>obj[k]\<close> finds on an object literal that has no own property \<open>k\<close>. Each of them is a
  function, or for \<^verbatim>\<open>__proto__\<close> the prototype object.
\<close>

definition inherited :: "string \<Rightarrow> bool" where
  "inherited k =
     (k \<in> set [''constructor'', ''hasOwnProperty'', ''isPrototypeOf'', ''propertyIsEnumerable'',
               ''toLocaleString'', ''toString'', ''valueOf'', ''__defineGetter__'',
               ''__defineSetter__'', ''__lookupGetter__'', ''__lookupSetter__'', ''__proto__''])"

text \<open>
  The range loops compiled from CoffeeScript,
  \<^verbatim>\<open>for (let i = lo, end = hi, asc = lo <= end; asc ? i < end : i > end; asc ? i++ : i--)\<close>,
  and \<^verbatim>\<open>__range__(lo, hi, false)\<close>: ascending from \<open>lo\<close> below \<open>hi\<close>, or descending from
  \<open>lo\<close> above \<open>hi\<close>.
\<close>

definition range_loop :: "int \<Rightarrow> int \<Rightarrow> int list" where
  "range_loop lo hi = (if lo \<le> hi then [lo..hi - 1] else rev [hi + 1..lo])"

section \<open>The matcher state\<close>

text \<open>
  The fields of \<^verbatim>\<open>class SequenceMatcher\<close>; the fields \<^verbatim>\<open>a\<close> and \<^verbatim>\<open>b\<close> are \<open>seq_a\<close> and
  \<open>seq_b\<close>. A field declared without an initializer is \<^verbatim>\<open>undefined\<close> until it is
  assigned: \<open>None\<close>, as \<^verbatim>\<open>null\<close> is.
\<close>

type_synonym block = "int \<times> int \<times> int"

text \<open>
  A value held in the dictionaries \<^verbatim>\<open>fullbcount\<close> and \<^verbatim>\<open>avail\<close> of \<^verbatim>\<open>quickRatio\<close>: a number, or a
  value that is not one (the string that \<^verbatim>\<open>+ 1\<close> makes of an inherited function, and the
  NaN that \<^verbatim>\<open>- 1\<close> makes of it).
\<close>

datatype tally = Count int | NotANumber

datatype OpcodeName = Insert | Delete | Replace | Equal

type_synonym OpcodeOperation = "OpcodeName \<times> int \<times> int \<times> int \<times> int"

record matcher =
  seq_a :: seq
  seq_b :: seq
  b2j :: "(string \<rightharpoonup> int list) option"
  fullbcount :: "(string \<rightharpoonup> tally) option"
  matchingBlocks :: "block list option"
  opcodes :: "OpcodeOperation list option"
  isjunk :: "(string \<Rightarrow> bool) option"
  isbjunk :: "(string \<Rightarrow> bool) option"
  isbpopular :: "(string \<Rightarrow> bool) option"
  autojunk :: bool

subsection \<open>\<^verbatim>\<open>_chainB\<close>\<close>

text \<open>
  The first loop: \<open>b2j[elt]\<close> collects the indices of \<open>elt\<close> in \<open>b\<close>. For the element
  \<^verbatim>\<open>__proto__\<close> the assignment \<^verbatim>\<open>b2j[elt] = []\<close> makes the fresh array the prototype of \<open>b2j\<close>
  and \<open>b2j\<close> gets no key.
\<close>

fun chain_indices :: "(string \<rightharpoonup> int list) \<Rightarrow> int \<Rightarrow> string list \<Rightarrow> (string \<rightharpoonup> int list)" where
  "chain_indices d i [] = d"
| "chain_indices d i (elt # rest) =
     chain_indices
       (assign d elt ((case d elt of None \<Rightarrow> [] | Some indices \<Rightarrow> indices) @ [i]))
       (i + 1) rest"

text \<open>
  The second loop, over \<^verbatim>\<open>Object.keys(b2j)\<close>. The keys are the distinct elements of \<open>b\<close>
  other than \<^verbatim>\<open>__proto__\<close>; what the loop computes does not depend on their order.
\<close>

fun purge_junk ::
  "(string \<Rightarrow> bool) \<Rightarrow> string list \<Rightarrow> (string \<rightharpoonup> int list) \<times> (string \<rightharpoonup> bool) \<Rightarrow>
   (string \<rightharpoonup> int list) \<times> (string \<rightharpoonup> bool)" where
  "purge_junk f [] (d, junk) = (d, junk)"
| "purge_junk f (elt # ks) (d, junk) =
     (if f elt then purge_junk f ks (d(elt := None), junk(elt \<mapsto> True))
      else purge_junk f ks (d, junk))"

text \<open>
  The third loop, \<^verbatim>\<open>for (elt in b2j)\<close>: the keys still present. (When the first loop has
  given \<open>b2j\<close> an array as prototype, the loop also visits the index \<^verbatim>\<open>0\<close> of that array;
  \<^verbatim>\<open>b2j[elt]\<close> is then a number, whose \<^verbatim>\<open>length\<close> is undefined, and nothing is purged.)
\<close>

fun purge_popular ::
  "int \<Rightarrow> string list \<Rightarrow> (string \<rightharpoonup> int list) \<times> (string \<rightharpoonup> bool) \<Rightarrow>
   (string \<rightharpoonup> int list) \<times> (string \<rightharpoonup> bool)" where
  "purge_popular ntest [] (d, popular) = (d, popular)"
| "purge_popular ntest (elt # ks) (d, popular) =
     (case d elt of
        None \<Rightarrow> purge_popular ntest ks (d, popular)
      | Some idxs \<Rightarrow>
          if int (length idxs) > ntest
          then purge_popular ntest ks (d(elt := None), popular(elt \<mapsto> True))
          else purge_popular ntest ks (d, popular))"

definition chainB :: "matcher \<Rightarrow> matcher" where
  "chainB m =
     (let bs = elems (seq_b m);
          d0 = chain_indices Map.empty 0 bs;
          ks = filter (\<lambda>elt. elt \<noteq> proto_key) (remdups bs);
          (d1, junk) = (case isjunk m of
                          None \<Rightarrow> (d0, Map.empty)
                        | Some f \<Rightarrow> purge_junk f ks (d0, Map.empty));
          n = int (length bs);
          (d2, popular) = (if autojunk m \<and> n \<ge> 200
                           then purge_popular (n div 100 + 1) ks (d1, Map.empty)
                           else (d1, Map.empty))
      in m\<lparr>b2j := Some d2, isbjunk := Some (has junk), isbpopular := Some (has popular)\<rparr>)"

subsection \<open>Construction and the setters\<close>

definition setSeq1 :: "seq \<Rightarrow> matcher \<Rightarrow> matcher" where
  "setSeq1 x m =
     (if strict_eq x (seq_a m) then m
      else m\<lparr>seq_a := x, matchingBlocks := None, opcodes := None\<rparr>)"

definition setSeq2 :: "seq \<Rightarrow> matcher \<Rightarrow> matcher" where
  "setSeq2 y m =
     (if strict_eq y (seq_b m) then m
      else chainB (m\<lparr>seq_b := y, matchingBlocks := None, opcodes := None, fullbcount := None\<rparr>))"

definition setSeqs :: "seq \<Rightarrow> seq \<Rightarrow> matcher \<Rightarrow> matcher" where
  "setSeqs x y m = setSeq2 y (setSeq1 x m)"

text \<open>The object before the constructor body runs: the field initializers.\<close>

definition fresh :: matcher where
  "fresh = \<lparr>seq_a = Str '''', seq_b = Str '''', b2j = None, fullbcount = None,
            matchingBlocks = None, opcodes = None, isjunk = None, isbjunk = None,
            isbpopular = None, autojunk = True\<rparr>"

text \<open>\<^verbatim>\<open>new SequenceMatcher(isjunk, a, b, autojunk)\<close>; an argument left out or null is \<open>None\<close>.\<close>

definition SequenceMatcher ::
  "(string \<Rightarrow> bool) option \<Rightarrow> seq option \<Rightarrow> seq option \<Rightarrow> bool option \<Rightarrow> matcher" where
  "SequenceMatcher j x y aj =
     setSeqs (case x of None \<Rightarrow> Str '''' | Some s \<Rightarrow> s)
             (case y of None \<Rightarrow> Str '''' | Some s \<Rightarrow> s)
             (fresh\<lparr>isjunk := j, autojunk := (case aj of None \<Rightarrow> True | Some v \<Rightarrow> v)\<rparr>)"

subsection \<open>\<^verbatim>\<open>findLongestMatch\<close>\<close>

text \<open>
  The inner loop \<^verbatim>\<open>for (const j of jarray)\<close> of row \<open>i\<close>: \<open>j2len\<close> is the previous row,
  \<open>newj2len\<close> the row being built.
\<close>

fun scan_row ::
  "int \<Rightarrow> int \<Rightarrow> int \<Rightarrow> (int \<rightharpoonup> int) \<Rightarrow> int list \<Rightarrow> (int \<rightharpoonup> int) \<times> block \<Rightarrow> (int \<rightharpoonup> int) \<times> block" where
  "scan_row i blo bhi j2len [] (newj2len, best) = (newj2len, best)"
| "scan_row i blo bhi j2len (j # js) (newj2len, (besti, bestj, bestsize)) =
     (if j < blo then scan_row i blo bhi j2len js (newj2len, (besti, bestj, bestsize))
      else if j \<ge> bhi then (newj2len, (besti, bestj, bestsize))
      else let k = (case j2len (j - 1) of None \<Rightarrow> 0 | Some v \<Rightarrow> v) + 1;
               newj2len' = newj2len(j \<mapsto> k)
           in if k > bestsize
              then scan_row i blo bhi j2len js (newj2len', (i - k + 1, j - k + 1, k))
              else scan_row i blo bhi j2len js (newj2len', (besti, bestj, bestsize)))"

text \<open>The outer loop over the rows \<open>i\<close>; \<open>d\<close> is \<open>b2j\<close>.\<close>

fun scan_rows ::
  "string list \<Rightarrow> (string \<rightharpoonup> int list) \<Rightarrow> int \<Rightarrow> int \<Rightarrow> int list \<Rightarrow>
   (int \<rightharpoonup> int) \<times> block \<Rightarrow> (int \<rightharpoonup> int) \<times> block" where
  "scan_rows xs d blo bhi [] (j2len, best) = (j2len, best)"
| "scan_rows xs d blo bhi (i # rows) (j2len, best) =
     (let jarray = (case d (key_of (item xs i)) of None \<Rightarrow> [] | Some js \<Rightarrow> js)
      in scan_rows xs d blo bhi rows (scan_row i blo bhi j2len jarray (Map.empty, best)))"

text \<open>
  The four \<^verbatim>\<open>while\<close> loops that extend the match. The first and the third differ in the
  value \<open>want\<close> asked of \<open>isbjunk(b[bestj-1])\<close> only, and so do the second and the fourth.
\<close>

function extend_left ::
  "bool \<Rightarrow> (string \<Rightarrow> bool) \<Rightarrow> string list \<Rightarrow> string list \<Rightarrow> int \<Rightarrow> int \<Rightarrow> block \<Rightarrow> block" where
  "extend_left want f xs ys alo blo (besti, bestj, bestsize) =
     (if besti > alo \<and> bestj > blo
         \<and> f (key_of (item ys (bestj - 1))) = want
         \<and> item xs (besti - 1) = item ys (bestj - 1)
      then extend_left want f xs ys alo blo (besti - 1, bestj - 1, bestsize + 1)
      else (besti, bestj, bestsize))"
  by pat_completeness auto
termination
  by (relation "measure (\<lambda>(want, f, xs, ys, alo, blo, besti, bestj, bestsize). nat (besti - alo))") auto

function extend_right ::
  "bool \<Rightarrow> (string \<Rightarrow> bool) \<Rightarrow> string list \<Rightarrow> string list \<Rightarrow> int \<Rightarrow> int \<Rightarrow> block \<Rightarrow> block" where
  "extend_right want f xs ys ahi bhi (besti, bestj, bestsize) =
     (if besti + bestsize < ahi \<and> bestj + bestsize < bhi
         \<and> f (key_of (item ys (bestj + bestsize))) = want
         \<and> item xs (besti + bestsize) = item ys (bestj + bestsize)
      then extend_right want f xs ys ahi bhi (besti, bestj, bestsize + 1)
      else (besti, bestj, bestsize))"
  by pat_completeness auto
termination
  by (relation "measure (\<lambda>(want, f, xs, ys, ahi, bhi, besti, bestj, bestsize). nat (ahi - (besti + bestsize)))") auto

text \<open>
  The dynamic programme. \<^verbatim>\<open>_has(b2j, a[i])\<close> throws a TypeError when \<open>b2j\<close> is undefined,
  at the first row.
\<close>

definition longest_core :: "matcher \<Rightarrow> int \<Rightarrow> int \<Rightarrow> int \<Rightarrow> int \<Rightarrow> error + block" where
  "longest_core m alo ahi blo bhi =
     (case range_loop alo ahi of
        [] \<Rightarrow> Inr (alo, blo, 0)
      | i # rows \<Rightarrow>
          (case b2j m of
             None \<Rightarrow> Inl TypeError
           | Some d \<Rightarrow>
               Inr (snd (scan_rows (elems (seq_a m)) d blo bhi (i # rows) (Map.empty, (alo, blo, 0))))))"

text \<open>
  The extension. When \<open>isbjunk\<close> is undefined, the first loop condition that reaches the
  call \<open>isbjunk(...)\<close> throws a TypeError.
\<close>

definition extend_all ::
  "matcher \<Rightarrow> int \<Rightarrow> int \<Rightarrow> int \<Rightarrow> int \<Rightarrow> block \<Rightarrow> error + block" where
  "extend_all m alo ahi blo bhi best =
     (let xs = elems (seq_a m); ys = elems (seq_b m) in
      case isbjunk m of
        Some f \<Rightarrow>
          Inr (extend_right True f xs ys ahi bhi
                (extend_left True f xs ys alo blo
                  (extend_right False f xs ys ahi bhi
                    (extend_left False f xs ys alo blo best))))
      | None \<Rightarrow>
          (case best of (besti, bestj, bestsize) \<Rightarrow>
             if (besti > alo \<and> bestj > blo) \<or> (besti + bestsize < ahi \<and> bestj + bestsize < bhi)
             then Inl TypeError else Inr best))"

definition findLongestMatch :: "matcher \<Rightarrow> int \<Rightarrow> int \<Rightarrow> int \<Rightarrow> int \<Rightarrow> error + block" where
  "findLongestMatch m alo ahi blo bhi =
     (case longest_core m alo ahi blo bhi of
        Inl e \<Rightarrow> Inl e
      | Inr best \<Rightarrow> extend_all m alo ahi blo bhi best)"

subsection \<open>\<^verbatim>\<open>getMatchingBlocks\<close>\<close>

text \<open>
  The work queue is a stack: \<^verbatim>\<open>queue.pop()\<close> takes the window pushed last, the head of
  the list. \<open>acc\<close> is \<^verbatim>\<open>matchingBlocks\<close>, in the order of the pushes.
\<close>

function match_queue ::
  "matcher \<Rightarrow> (int \<times> int \<times> int \<times> int) list \<Rightarrow> block list \<Rightarrow> error + block list" where
  "match_queue m [] acc = Inr acc"
| "match_queue m ((alo, ahi, blo, bhi) # queue) acc =
     (case findLongestMatch m alo ahi blo bhi of
        Inl e \<Rightarrow> Inl e
      | Inr (i, j, k) \<Rightarrow>
          if k \<noteq> 0
          then match_queue m
                 ((if i + k < ahi \<and> j + k < bhi then [(i + k, ahi, j + k, bhi)] else [])
                  @ (if alo < i \<and> blo < j then [(alo, i, blo, j)] else [])
                  @ queue)
                 (acc @ [(i, j, k)])
          else match_queue m queue acc)"
  by pat_completeness auto

text \<open>\<^verbatim>\<open>_arrayCmp\<close>, and \<^verbatim>\<open>Array.prototype.sort\<close> with a comparator (a stable sort).\<close>

fun arrayCmp :: "int list \<Rightarrow> int list \<Rightarrow> int" where
  "arrayCmp (x # xs) (y # ys) = (if x < y then - 1 else if x > y then 1 else arrayCmp xs ys)"
| "arrayCmp xs ys = int (length xs) - int (length ys)"

fun insert_by :: "('a \<Rightarrow> 'a \<Rightarrow> int) \<Rightarrow> 'a \<Rightarrow> 'a list \<Rightarrow> 'a list" where
  "insert_by cmp x [] = [x]"
| "insert_by cmp x (y # ys) = (if cmp x y < 0 then x # y # ys else y # insert_by cmp x ys)"

definition sort_by :: "('a \<Rightarrow> 'a \<Rightarrow> int) \<Rightarrow> 'a list \<Rightarrow> 'a list" where
  "sort_by cmp xs = foldl (\<lambda>sorted x. insert_by cmp x sorted) [] xs"

definition block_cmp :: "block \<Rightarrow> block \<Rightarrow> int" where
  "block_cmp x y =
     (case x of (i, j, k) \<Rightarrow> case y of (i', j', k') \<Rightarrow> arrayCmp [i, j, k] [i', j', k'])"

text \<open>The loop that collapses adjacent blocks; \<open>(i1, j1, k1)\<close> is the block compared against.\<close>

fun collapse :: "block \<Rightarrow> block list \<Rightarrow> block list \<Rightarrow> block list \<times> block" where
  "collapse (i1, j1, k1) [] nonAdjacent = (nonAdjacent, (i1, j1, k1))"
| "collapse (i1, j1, k1) ((i2, j2, k2) # rest) nonAdjacent =
     (if i1 + k1 = i2 \<and> j1 + k1 = j2
      then collapse (i1, j1, k1 + k2) rest nonAdjacent
      else collapse (i2, j2, k2) rest
             (if k1 \<noteq> 0 then nonAdjacent @ [(i1, j1, k1)] else nonAdjacent))"

definition compute_blocks :: "matcher \<Rightarrow> error + block list" where
  "compute_blocks m =
     (let la = seq_length (seq_a m); lb = seq_length (seq_b m) in
      case match_queue m [(0, la, 0, lb)] [] of
        Inl e \<Rightarrow> Inl e
      | Inr found \<Rightarrow>
          (case collapse (0, 0, 0) (sort_by block_cmp found) [] of
             (nonAdjacent, (i1, j1, k1)) \<Rightarrow>
               Inr ((if k1 \<noteq> 0 then nonAdjacent @ [(i1, j1, k1)] else nonAdjacent)
                    @ [(la, lb, 0)])))"

text \<open>
  A method that memoizes returns its value and the matcher after the call. The state
  a throwing call leaves behind is not part of the embedding.
\<close>

definition getMatchingBlocks :: "matcher \<Rightarrow> error + (block list \<times> matcher)" where
  "getMatchingBlocks m =
     (case matchingBlocks m of
        Some blocks \<Rightarrow> Inr (blocks, m)
      | None \<Rightarrow>
          (case compute_blocks m of
             Inl e \<Rightarrow> Inl e
           | Inr blocks \<Rightarrow> Inr (blocks, m\<lparr>matchingBlocks := Some blocks\<rparr>)))"

subsection \<open>\<^verbatim>\<open>getOpcodes\<close>\<close>

text \<open>The loop over the matching blocks, with the cursors \<open>i\<close> and \<open>j\<close>; the tag \<^verbatim>\<open>''\<close> is \<open>None\<close>.\<close>

fun opcode_loop :: "int \<Rightarrow> int \<Rightarrow> block list \<Rightarrow> OpcodeOperation list \<Rightarrow> OpcodeOperation list" where
  "opcode_loop i j [] answer = answer"
| "opcode_loop i j ((ai, bj, sz) # rest) answer =
     (let tag = (if i < ai \<and> j < bj then Some Replace
                 else if i < ai then Some Delete
                 else if j < bj then Some Insert
                 else None);
          answer1 = (case tag of Some t \<Rightarrow> answer @ [(t, i, ai, j, bj)] | None \<Rightarrow> answer);
          i' = ai + sz;
          j' = bj + sz;
          answer2 = (if sz \<noteq> 0 then answer1 @ [(Equal, ai, i', bj, j')] else answer1)
      in opcode_loop i' j' rest answer2)"

definition getOpcodes :: "matcher \<Rightarrow> error + (OpcodeOperation list \<times> matcher)" where
  "getOpcodes m =
     (case opcodes m of
        Some answer \<Rightarrow> Inr (answer, m)
      | None \<Rightarrow>
          (case getMatchingBlocks m of
             Inl e \<Rightarrow> Inl e
           | Inr (blocks, m1) \<Rightarrow>
               (let answer = opcode_loop 0 0 blocks [] in Inr (answer, m1\<lparr>opcodes := Some answer\<rparr>))))"

subsection \<open>The ratios\<close>

definition calculateRatio :: "int \<Rightarrow> int \<Rightarrow> real" where
  "calculateRatio matches len = (if len \<noteq> 0 then (2 * real_of_int matches) / real_of_int len else 1)"

definition ratio :: "matcher \<Rightarrow> error + (real \<times> matcher)" where
  "ratio m =
     (case getMatchingBlocks m of
        Inl e \<Rightarrow> Inl e
      | Inr (blocks, m1) \<Rightarrow>
          Inr (calculateRatio (foldl (\<lambda>matches match. matches + snd (snd match)) 0 blocks)
                 (seq_length (seq_a m) + seq_length (seq_b m)), m1))"

text \<open>
  \<^verbatim>\<open>quickRatio\<close>: the count of \<open>b\<close>, built when \<open>fullbcount\<close> is null, and the scan of \<open>a\<close>.
  The two loops \<^verbatim>\<open>for (elt of ...)\<close> visit the elements of an array, and the code points of
  a string, which are its characters here.
  \<open>read_count c elt\<close> is \<^verbatim>\<open>fullbcount[elt] || 0\<close>, a read without \<^verbatim>\<open>_has\<close>: for a key that is
  not an own property it finds the inherited member, which is truthy. \<open>plus1\<close> and \<open>minus1\<close>
  are \<^verbatim>\<open>+ 1\<close> and \<^verbatim>\<open>- 1\<close>, and \<open>is_positive\<close> is \<^verbatim>\<open>numb > 0\<close>, false of a value that is not a
  number.
\<close>

definition read_count :: "(string \<rightharpoonup> tally) \<Rightarrow> string \<Rightarrow> tally" where
  "read_count c elt =
     (case c elt of
        Some v \<Rightarrow> v
      | None \<Rightarrow> if inherited elt then NotANumber else Count 0)"

fun plus1 :: "tally \<Rightarrow> tally" where
  "plus1 (Count v) = Count (v + 1)"
| "plus1 NotANumber = NotANumber"

fun minus1 :: "tally \<Rightarrow> tally" where
  "minus1 (Count v) = Count (v - 1)"
| "minus1 NotANumber = NotANumber"

fun is_positive :: "tally \<Rightarrow> bool" where
  "is_positive (Count v) = (v > 0)"
| "is_positive NotANumber = False"

fun count_elements :: "(string \<rightharpoonup> tally) \<Rightarrow> string list \<Rightarrow> (string \<rightharpoonup> tally)" where
  "count_elements c [] = c"
| "count_elements c (elt # rest) =
     count_elements (assign c elt (plus1 (read_count c elt))) rest"

fun quick_scan ::
  "(string \<rightharpoonup> tally) \<Rightarrow> string list \<Rightarrow> (string \<rightharpoonup> tally) \<times> int \<Rightarrow> (string \<rightharpoonup> tally) \<times> int" where
  "quick_scan c [] (avail, matches) = (avail, matches)"
| "quick_scan c (elt # rest) (avail, matches) =
     (let numb = (case avail elt of
                    Some v \<Rightarrow> v
                  | None \<Rightarrow> read_count c elt)
      in quick_scan c rest
           (assign avail elt (minus1 numb), if is_positive numb then matches + 1 else matches))"

definition quickRatio :: "matcher \<Rightarrow> real \<times> matcher" where
  "quickRatio m =
     (let c = (case fullbcount m of
                 None \<Rightarrow> count_elements Map.empty (elems (seq_b m))
               | Some c \<Rightarrow> c);
          matches = snd (quick_scan c (elems (seq_a m)) (Map.empty, 0))
      in (calculateRatio matches (seq_length (seq_a m) + seq_length (seq_b m)),
          m\<lparr>fullbcount := Some c\<rparr>))"

definition realQuickRatio :: "matcher \<Rightarrow> real" where
  "realQuickRatio m =
     (let la = seq_length (seq_a m); lb = seq_length (seq_b m)
      in calculateRatio (min la lb) (la + lb))"

section \<open>Range formats\<close>

text \<open>The decimal rendering of an integer by a template literal, \<^verbatim>\<open>`${n}`\<close>.\<close>

fun digits :: "nat \<Rightarrow> string" where
  "digits n =
     (if n < 10 then [''0123456789'' ! n]
      else digits (n div 10) @ [''0123456789'' ! (n mod 10)])"

definition show_int :: "int \<Rightarrow> string" where
  "show_int i = (if i < 0 then CHR ''-'' # digits (nat (- i)) else digits (nat i))"

definition formatRangeUnified :: "int \<Rightarrow> int \<Rightarrow> string" where
  "formatRangeUnified start stop =
     (let beginning = start + 1; len = stop - start in
      if len = 1 then show_int beginning
      else (let beginning' = (if len = 0 then beginning - 1 else beginning)
            in show_int beginning' @ '','' @ show_int len))"

definition formatRangeContext :: "int \<Rightarrow> int \<Rightarrow> string" where
  "formatRangeContext start stop =
     (let beginning = start + 1; len = stop - start;
          beginning' = (if len = 0 then beginning - 1 else beginning)
      in if len \<le> 1 then show_int beginning'
         else show_int beginning' @ '','' @ show_int (beginning' + len - 1))"

subsection \<open>\<^verbatim>\<open>getGroupedOpcodes\<close>\<close>

text \<open>
  \<^verbatim>\<open>codes\<close> is the array \<^verbatim>\<open>getOpcodes()\<close> returns, which is the cached array itself: the two
  assignments \<^verbatim>\<open>codes[0] = ...\<close> and \<^verbatim>\<open>codes[codes.length-1] = ...\<close> change the cache, unless
  \<^verbatim>\<open>codes\<close> was empty and replaced by a new array.
\<close>

definition fix_first :: "int \<Rightarrow> OpcodeOperation list \<Rightarrow> OpcodeOperation list" where
  "fix_first n codes =
     (case codes of
        (Equal, i1, i2, j1, j2) # rest \<Rightarrow> (Equal, max i1 (i2 - n), i2, max j1 (j2 - n), j2) # rest
      | _ \<Rightarrow> codes)"

definition fix_last :: "int \<Rightarrow> OpcodeOperation list \<Rightarrow> OpcodeOperation list" where
  "fix_last n codes =
     (case rev codes of
        (Equal, i1, i2, j1, j2) # front \<Rightarrow> rev front @ [(Equal, i1, min i2 (i1 + n), j1, min j2 (j1 + n))]
      | _ \<Rightarrow> codes)"

fun group_loop ::
  "int \<Rightarrow> OpcodeOperation list \<Rightarrow> OpcodeOperation list \<Rightarrow> OpcodeOperation list list \<Rightarrow>
   OpcodeOperation list \<times> OpcodeOperation list list" where
  "group_loop n [] grp groups = (grp, groups)"
| "group_loop n ((tag, i1, i2, j1, j2) # rest) grp groups =
     (if tag = Equal \<and> i2 - i1 > n + n
      then group_loop n rest
             [(tag, max i1 (i2 - n), i2, max j1 (j2 - n), j2)]
             (groups @ [grp @ [(tag, i1, min i2 (i1 + n), j1, min j2 (j1 + n))]])
      else group_loop n rest (grp @ [(tag, i1, i2, j1, j2)]) groups)"

definition getGroupedOpcodes ::
  "int option \<Rightarrow> matcher \<Rightarrow> error + (OpcodeOperation list list \<times> matcher)" where
  "getGroupedOpcodes n0 m =
     (let n = (case n0 of None \<Rightarrow> 3 | Some v \<Rightarrow> v) in
      case getOpcodes m of
        Inl e \<Rightarrow> Inl e
      | Inr (codes0, m1) \<Rightarrow>
          (let codes = fix_last n (fix_first n (if codes0 = [] then [(Equal, 0, 1, 0, 1)] else codes0));
               m2 = (if codes0 = [] then m1 else m1\<lparr>opcodes := Some codes\<rparr>)
           in case group_loop n codes [] [] of
                (grp, groups) \<Rightarrow>
                  Inr (if grp \<noteq> [] \<and> \<not> (length grp = 1 \<and> fst (hd grp) = Equal)
                       then groups @ [grp] else groups, m2)))"

section \<open>The context diff\<close>

record diff_options =
  fromfile :: "string option"
  tofile :: "string option"
  fromfiledate :: "string option"
  tofiledate :: "string option"
  opt_n :: "int option"
  lineterm :: "string option"

definition prefix_of :: "OpcodeName \<Rightarrow> string" where
  "prefix_of tag = (case tag of Insert \<Rightarrow> ''+ '' | Delete \<Rightarrow> ''- '' | Replace \<Rightarrow> ''! '' | Equal \<Rightarrow> ''  '')"

text \<open>\<^verbatim>\<open>xs.slice(lo, hi)\<close>, with the negative arguments counted from the end.\<close>

definition js_slice :: "'a list \<Rightarrow> int \<Rightarrow> int \<Rightarrow> 'a list" where
  "js_slice xs lo hi =
     (let n = int (length xs);
          l = (if lo < 0 then max (n + lo) 0 else min lo n);
          h = (if hi < 0 then max (n + hi) 0 else min hi n)
      in take (nat (h - l)) (drop (nat l) xs))"

text \<open>
  The body emitted for one group. \<^verbatim>\<open>group[0]\<close> of an empty group is undefined, and reading
  its field throws a TypeError.
\<close>

definition context_body ::
  "string list \<Rightarrow> string list \<Rightarrow> string \<Rightarrow> OpcodeOperation list \<Rightarrow> error + string list" where
  "context_body xs ys term grp =
     (case grp of
        [] \<Rightarrow> Inl TypeError
      | first # _ \<Rightarrow>
          (case (first, last grp) of ((_, f1, _, f3, _), (_, _, l2, _, l4)) \<Rightarrow>
             Inr ([''***************'' @ term,
                   ''*** '' @ formatRangeContext f1 l2 @ '' ****'' @ term]
                  @ (if \<exists>op\<in>set grp. fst op = Replace \<or> fst op = Delete
                     then concat (map (\<lambda>(tag, i1, i2, j1, j2).
                                        if tag \<noteq> Insert
                                        then map (\<lambda>line. prefix_of tag @ line) (js_slice xs i1 i2)
                                        else []) grp)
                     else [])
                  @ [''--- '' @ formatRangeContext f3 l4 @ '' ----'' @ term]
                  @ (if \<exists>op\<in>set grp. fst op = Replace \<or> fst op = Insert
                     then concat (map (\<lambda>(tag, i1, i2, j1, j2).
                                        if tag \<noteq> Delete
                                        then map (\<lambda>line. prefix_of tag @ line) (js_slice ys j1 j2)
                                        else []) grp)
                     else []))))"

text \<open>
  The loop over the groups. Everything a group emits, the header and the body, stands
  inside \<^verbatim>\<open>if (!started) { ... }\<close>.
\<close>

fun context_loop ::
  "string list \<Rightarrow> string list \<Rightarrow> string list \<Rightarrow> string \<Rightarrow> bool \<Rightarrow> string list \<Rightarrow>
   OpcodeOperation list list \<Rightarrow> error + string list" where
  "context_loop xs ys header term started lines [] = Inr lines"
| "context_loop xs ys header term started lines (grp # rest) =
     (if \<not> started
      then (case context_body xs ys term grp of
              Inl e \<Rightarrow> Inl e
            | Inr body \<Rightarrow> context_loop xs ys header term True (lines @ header @ body) rest)
      else context_loop xs ys header term started lines rest)"

definition contextDiff :: "seq \<Rightarrow> seq \<Rightarrow> diff_options option \<Rightarrow> error + string list" where
  "contextDiff x y param =
     (let dflt = (\<lambda>sel d. case param of None \<Rightarrow> d
                           | Some p \<Rightarrow> (case sel p of None \<Rightarrow> d | Some v \<Rightarrow> v));
          ffile = dflt fromfile ''''; tfile = dflt tofile '''';
          fdate = dflt fromfiledate ''''; tdate = dflt tofiledate '''';
          term = dflt lineterm [CHR 0x0A];
          fromdate = (if fdate \<noteq> '''' then CHR 0x09 # fdate else '''');
          todate = (if tdate \<noteq> '''' then CHR 0x09 # tdate else '''');
          header = [''*** '' @ ffile @ fromdate @ term, ''--- '' @ tfile @ todate @ term]
      in case getGroupedOpcodes None (SequenceMatcher None (Some x) (Some y) None) of
           Inl e \<Rightarrow> Inl e
         | Inr (groups, _) \<Rightarrow> context_loop (elems x) (elems y) header term False [] groups)"

section \<open>The line differ\<close>

record differ =
  linejunk :: "(string \<Rightarrow> bool) option"
  charjunk :: "(string \<Rightarrow> bool) option"

definition Differ :: "(string \<Rightarrow> bool) option \<Rightarrow> (string \<Rightarrow> bool) option \<Rightarrow> differ" where
  "Differ lj cj = \<lparr>linejunk = lj, charjunk = cj\<rparr>"

text \<open>\<^verbatim>\<open>IS_CHARACTER_JUNK(ch)\<close> is \<^verbatim>\<open>' \t'.includes(ch)\<close>: \<open>ch\<close> is a substring of blank-tab.\<close>

definition IS_CHARACTER_JUNK :: "string \<Rightarrow> bool" where
  "IS_CHARACTER_JUNK ch =
     (ch = '''' \<or> ch = '' '' \<or> ch = [CHR 0x09] \<or> ch = [CHR '' '', CHR 0x09])"

text \<open>\<^verbatim>\<open>_dump\<close>: the template literal renders an undefined element as \<^verbatim>\<open>undefined\<close>.\<close>

definition dump :: "string \<Rightarrow> string list \<Rightarrow> int \<Rightarrow> int \<Rightarrow> string list" where
  "dump tag x lo hi = map (\<lambda>i. tag @ '' '' @ key_of (item x i)) (range_loop lo hi)"

definition plainReplace ::
  "string list \<Rightarrow> int \<Rightarrow> int \<Rightarrow> string list \<Rightarrow> int \<Rightarrow> int \<Rightarrow> error + string list" where
  "plainReplace xs alo ahi ys blo bhi =
     (if \<not> (alo < ahi \<and> blo < bhi) then Inl AssertionError
      else if bhi - blo < ahi - alo
      then Inr (dump ''+'' ys blo bhi @ dump ''-'' xs alo ahi)
      else Inr (dump ''-'' xs alo ahi @ dump ''+'' ys blo bhi))"

text \<open>
  The search of \<^verbatim>\<open>_fancyReplace\<close> for the best pair of lines. The state of the two loops:
  the character matcher \<^verbatim>\<open>cruncher\<close>, the best ratio and its indices, and the first pair
  of identical lines. An index that was never assigned is \<open>None\<close>.
\<close>

record search =
  cruncher :: matcher
  bestRatio :: real
  besti :: "int option"
  bestj :: "int option"
  eqi :: "int option"
  eqj :: "int option"

fun search_row :: "string list \<Rightarrow> string \<Rightarrow> int \<Rightarrow> int list \<Rightarrow> search \<Rightarrow> error + search" where
  "search_row xs bj j [] st = Inr st"
| "search_row xs bj j (i # rest) st =
     (case item xs i of
        None \<Rightarrow> Inl TypeError
      | Some ai \<Rightarrow>
          if ai = bj
          then search_row xs bj j rest
                 (if eqi st = None then st\<lparr>eqi := Some i, eqj := Some j\<rparr> else st)
          else
            (let c1 = setSeq1 (Str ai) (cruncher st) in
             if realQuickRatio c1 > bestRatio st
             then (case quickRatio c1 of (q, c2) \<Rightarrow>
                     if q > bestRatio st
                     then (case ratio c2 of
                             Inl e \<Rightarrow> Inl e
                           | Inr (r, c3) \<Rightarrow>
                               if r > bestRatio st
                               then (case ratio c3 of
                                       Inl e \<Rightarrow> Inl e
                                     | Inr (r', c4) \<Rightarrow>
                                         search_row xs bj j rest
                                           (st\<lparr>cruncher := c4, bestRatio := r',
                                               besti := Some i, bestj := Some j\<rparr>))
                               else search_row xs bj j rest (st\<lparr>cruncher := c3\<rparr>))
                     else search_row xs bj j rest (st\<lparr>cruncher := c2\<rparr>))
             else search_row xs bj j rest (st\<lparr>cruncher := c1\<rparr>)))"

fun search_rows ::
  "string list \<Rightarrow> string list \<Rightarrow> int \<Rightarrow> int \<Rightarrow> int list \<Rightarrow> search \<Rightarrow> error + search" where
  "search_rows xs ys alo ahi [] st = Inr st"
| "search_rows xs ys alo ahi (j # rest) st =
     (case item ys j of
        None \<Rightarrow> Inl TypeError
      | Some bj \<Rightarrow>
          (case search_row xs bj j (range_loop alo ahi)
                  (st\<lparr>cruncher := setSeq2 (Str bj) (cruncher st)\<rparr>) of
             Inl e \<Rightarrow> Inl e
           | Inr st' \<Rightarrow> search_rows xs ys alo ahi rest st'))"

text \<open>\<^verbatim>\<open>Array(n + 1).join(c)\<close>: \<open>n\<close> copies of \<open>c\<close>; a negative array length is a RangeError.\<close>

definition repeat_char :: "char \<Rightarrow> int \<Rightarrow> error + string" where
  "repeat_char c n = (if n + 1 < 0 then Inl RangeError else Inr (replicate (nat n) c))"

fun tag_loop :: "OpcodeOperation list \<Rightarrow> string \<times> string \<Rightarrow> error + (string \<times> string)" where
  "tag_loop [] (atags, btags) = Inr (atags, btags)"
| "tag_loop ((tag, ai1, ai2, bj1, bj2) # rest) (atags, btags) =
     (let la = ai2 - ai1; lb = bj2 - bj1 in
      case tag of
        Replace \<Rightarrow>
          (case repeat_char CHR ''^'' la of
             Inl e \<Rightarrow> Inl e
           | Inr sa \<Rightarrow>
               (case repeat_char CHR ''^'' lb of
                  Inl e \<Rightarrow> Inl e
                | Inr sb \<Rightarrow> tag_loop rest (atags @ sa, btags @ sb)))
      | Delete \<Rightarrow>
          (case repeat_char CHR ''-'' la of
             Inl e \<Rightarrow> Inl e
           | Inr sa \<Rightarrow> tag_loop rest (atags @ sa, btags))
      | Insert \<Rightarrow>
          (case repeat_char CHR ''+'' lb of
             Inl e \<Rightarrow> Inl e
           | Inr sb \<Rightarrow> tag_loop rest (atags, btags @ sb))
      | Equal \<Rightarrow>
          (case repeat_char CHR '' '' la of
             Inl e \<Rightarrow> Inl e
           | Inr sa \<Rightarrow>
               (case repeat_char CHR '' '' lb of
                  Inl e \<Rightarrow> Inl e
                | Inr sb \<Rightarrow> tag_loop rest (atags @ sa, btags @ sb))))"

definition countLeading :: "string \<Rightarrow> char \<Rightarrow> int" where
  "countLeading line ch = int (length (takeWhile (\<lambda>c. c = ch) line))"

text \<open>\<^verbatim>\<open>s.replace(/\s+$/, '')\<close>, on the white space of ASCII.\<close>

definition is_space :: "char \<Rightarrow> bool" where
  "is_space c = (c \<in> set [CHR '' '', CHR 0x09, CHR 0x0A, CHR 0x0B, CHR 0x0C, CHR 0x0D])"

definition rstrip :: "string \<Rightarrow> string" where
  "rstrip s = rev (dropWhile is_space (rev s))"

definition qformat :: "string \<Rightarrow> string \<Rightarrow> string \<Rightarrow> string \<Rightarrow> string list" where
  "qformat aline bline atags btags =
     (let common0 = min (countLeading aline (CHR 0x09)) (countLeading bline (CHR 0x09));
          common1 = min common0 (countLeading (js_slice atags 0 common0) CHR '' '');
          common = min common1 (countLeading (js_slice btags 0 common1) CHR '' '');
          atags' = rstrip (js_slice atags common (int (length atags)));
          btags' = rstrip (js_slice btags common (int (length btags)));
          tabs = replicate (nat common) (CHR 0x09)
      in [''- '' @ aline]
         @ (if atags' \<noteq> [] then [''? '' @ tabs @ atags' @ [CHR 0x0A]] else [])
         @ [''+ '' @ bline]
         @ (if btags' \<noteq> [] then [''? '' @ tabs @ btags' @ [CHR 0x0A]] else []))"

text \<open>The marking of the synched pair of lines \<open>xs[i]\<close> and \<open>ys[j]\<close>.\<close>

definition sync_pair ::
  "matcher \<Rightarrow> bool \<Rightarrow> string list \<Rightarrow> int \<Rightarrow> string list \<Rightarrow> int \<Rightarrow> error + string list" where
  "sync_pair c identical xs i ys j =
     (if identical then Inr [''  '' @ key_of (item xs i)]
      else
        (case (item xs i, item ys j) of
           (Some aelt, Some belt) \<Rightarrow>
             (case getOpcodes (setSeqs (Str aelt) (Str belt) c) of
                Inl e \<Rightarrow> Inl e
              | Inr (ops, _) \<Rightarrow>
                  (case tag_loop ops ('''', '''') of
                     Inl e \<Rightarrow> Inl e
                   | Inr (atags, btags) \<Rightarrow> Inr (qformat aelt belt atags btags)))
         | _ \<Rightarrow> Inl TypeError))"

text \<open>
  \<^verbatim>\<open>_fancyReplace\<close>, with the dispatch of \<^verbatim>\<open>_fancyHelper\<close> written at its two calls. When
  no index was assigned the code compares with undefined, emits nothing for the part
  before, and throws a TypeError at the sequences of the synched pair.
\<close>

definition start_search :: "differ \<Rightarrow> search" where
  "start_search df =
     \<lparr>cruncher = SequenceMatcher (charjunk df) None None None, bestRatio = 0.74,
      besti = None, bestj = None, eqi = None, eqj = None\<rparr>"

function fancyReplace ::
  "differ \<Rightarrow> string list \<Rightarrow> int \<Rightarrow> int \<Rightarrow> string list \<Rightarrow> int \<Rightarrow> int \<Rightarrow> error + string list" where
  "fancyReplace df xs alo ahi ys blo bhi =
     (case search_rows xs ys alo ahi (range_loop blo bhi) (start_search df) of
        Inl e \<Rightarrow> Inl e
      | Inr st \<Rightarrow>
          if bestRatio st < 0.75 \<and> eqi st = None then plainReplace xs alo ahi ys blo bhi
          else
            (case (if bestRatio st < 0.75 then (eqi st, eqj st) else (besti st, bestj st)) of
               (Some i, Some j) \<Rightarrow>
                 (case (if alo < i
                        then (if blo < j then fancyReplace df xs alo i ys blo j
                              else Inr (dump ''-'' xs alo i))
                        else if blo < j then Inr (dump ''+'' ys blo j) else Inr []) of
                    Inl e \<Rightarrow> Inl e
                  | Inr front \<Rightarrow>
                      (case sync_pair (cruncher st) (bestRatio st < 0.75) xs i ys j of
                         Inl e \<Rightarrow> Inl e
                       | Inr mid \<Rightarrow>
                           (case (if i + 1 < ahi
                                  then (if j + 1 < bhi then fancyReplace df xs (i + 1) ahi ys (j + 1) bhi
                                        else Inr (dump ''-'' xs (i + 1) ahi))
                                  else if j + 1 < bhi then Inr (dump ''+'' ys (j + 1) bhi) else Inr []) of
                              Inl e \<Rightarrow> Inl e
                            | Inr back \<Rightarrow> Inr (front @ mid @ back))))
             | _ \<Rightarrow> Inl TypeError))"
  by pat_completeness auto

fun compare_loop ::
  "differ \<Rightarrow> string list \<Rightarrow> string list \<Rightarrow> OpcodeOperation list \<Rightarrow> string list \<Rightarrow> error + string list" where
  "compare_loop df xs ys [] lines = Inr lines"
| "compare_loop df xs ys ((tag, alo, ahi, blo, bhi) # rest) lines =
     (case (case tag of
              Replace \<Rightarrow> fancyReplace df xs alo ahi ys blo bhi
            | Delete \<Rightarrow> Inr (dump ''-'' xs alo ahi)
            | Insert \<Rightarrow> Inr (dump ''+'' ys blo bhi)
            | Equal \<Rightarrow> Inr (dump '' '' xs alo ahi)) of
        Inl e \<Rightarrow> Inl e
      | Inr g \<Rightarrow> compare_loop df xs ys rest (lines @ g))"

text \<open>
  \<^verbatim>\<open>Differ.compare\<close> on two arrays of lines. The references of the arrays play no role:
  the constructor compares them with the initial \<^verbatim>\<open>''\<close> only.
\<close>

definition compare :: "differ \<Rightarrow> string list \<Rightarrow> string list \<Rightarrow> error + string list" where
  "compare df xs ys =
     (case getOpcodes (SequenceMatcher (linejunk df) (Some (Arr 0 xs)) (Some (Arr 1 ys)) None) of
        Inl e \<Rightarrow> Inl e
      | Inr (ops, _) \<Rightarrow> compare_loop df xs ys ops [])"

definition ndiff ::
  "string list \<Rightarrow> string list \<Rightarrow> (string \<Rightarrow> bool) option \<Rightarrow> (string \<Rightarrow> bool) option \<Rightarrow>
   error + string list" where
  "ndiff xs ys lj cj =
     compare (Differ lj (Some (case cj of None \<Rightarrow> IS_CHARACTER_JUNK | Some f \<Rightarrow> f))) xs ys"

definition restore :: "string list \<Rightarrow> int \<Rightarrow> error + string list" where
  "restore delta which =
     (case (if which = 1 then Some ''- '' else if which = 2 then Some ''+ '' else None) of
        None \<Rightarrow> Inl (UnknownDeltaChoice which)
      | Some tag \<Rightarrow>
          Inr (map (\<lambda>line. js_slice line 2 (int (length line)))
                 (filter (\<lambda>line. js_slice line 0 2 \<in> set [''  '', tag]) delta)))"

section \<open>Close matches\<close>

text \<open>The loop over the possibilities; \<open>s\<close> is the matcher, \<open>result\<close> the scored candidates.\<close>

fun close_loop ::
  "real \<Rightarrow> matcher \<Rightarrow> string list \<Rightarrow> (real \<times> string) list \<Rightarrow> error + (real \<times> string) list" where
  "close_loop cutoff s [] result = Inr result"
| "close_loop cutoff s (x # rest) result =
     (let s1 = setSeq1 (Str x) s in
      if realQuickRatio s1 \<ge> cutoff
      then (case quickRatio s1 of (q, s2) \<Rightarrow>
              if q \<ge> cutoff
              then (case ratio s2 of
                      Inl e \<Rightarrow> Inl e
                    | Inr (r, s3) \<Rightarrow>
                        if r \<ge> cutoff
                        then (case ratio s3 of
                                Inl e \<Rightarrow> Inl e
                              | Inr (r', s4) \<Rightarrow> close_loop cutoff s4 rest (result @ [(r', x)]))
                        else close_loop cutoff s3 rest result)
              else close_loop cutoff s2 rest result)
      else close_loop cutoff s1 rest result)"

text \<open>\<^verbatim>\<open>_arrayCmp\<close> on the pairs \<^verbatim>\<open>[score, x]\<close>; strings are compared by their code units.\<close>

fun str_less :: "string \<Rightarrow> string \<Rightarrow> bool" where
  "str_less [] [] = False"
| "str_less [] (y # ys) = True"
| "str_less (x # xs) [] = False"
| "str_less (x # xs) (y # ys) =
     ((of_char x :: nat) < of_char y \<or> (x = y \<and> str_less xs ys))"

definition scored_cmp :: "real \<times> string \<Rightarrow> real \<times> string \<Rightarrow> int" where
  "scored_cmp p q =
     (if fst p < fst q then - 1 else if fst p > fst q then 1
      else if str_less (snd p) (snd q) then - 1 else if str_less (snd q) (snd p) then 1
      else 0)"

text \<open>
  Modelled from the spec: \<^verbatim>\<open>Heap.nlargest\<close> of the package \<^verbatim>\<open>heap\<close>, which is not among the
  sources. The specification has it return the top \<open>n\<close> sorted by score and candidate,
  both descending.
\<close>

definition nlargest :: "('a \<Rightarrow> 'a \<Rightarrow> int) \<Rightarrow> int \<Rightarrow> 'a list \<Rightarrow> 'a list" where
  "nlargest cmp n xs = take (nat n) (rev (sort_by cmp xs))"

definition getCloseMatches ::
  "string \<Rightarrow> string list \<Rightarrow> int option \<Rightarrow> real option \<Rightarrow> error + string list" where
  "getCloseMatches word possibilities n0 cutoff0 =
     (let n = (case n0 of None \<Rightarrow> 3 | Some v \<Rightarrow> v);
          cutoff = (case cutoff0 of None \<Rightarrow> 0.6 | Some v \<Rightarrow> v) in
      if \<not> (n > 0) then Inl (NMustBePositive n)
      else if \<not> (0 \<le> cutoff \<and> cutoff \<le> 1) then Inl (CutoffOutOfRange cutoff)
      else
        (case close_loop cutoff (setSeq2 (Str word) (SequenceMatcher None None None None))
                possibilities [] of
           Inl e \<Rightarrow> Inl e
         | Inr result \<Rightarrow> Inr (map snd (nlargest scored_cmp n result))))"

section \<open>The notions of the specification\<close>

text \<open>
  A matcher is indexed when the three fields derived from its second sequence are the
  ones \<^verbatim>\<open>_chainB\<close> computes from it. \<^verbatim>\<open>setSeq2\<close> establishes this whenever it does not
  return early, and \<^verbatim>\<open>setSeq1\<close> keeps it.
\<close>

definition indexed :: "matcher \<Rightarrow> bool" where
  "indexed m =
     (b2j m = b2j (chainB m) \<and> isbjunk m = isbjunk (chainB m) \<and> isbpopular m = isbpopular (chainB m))"

text \<open>
  The selection rule of \<open>findLongestMatch\<close>. A candidate is a triple \<open>(i, j, k)\<close> inside the
  windows whose \<open>k\<close> elements match, none of the matched elements of the second sequence
  being excluded. The selected candidate maximizes \<open>k\<close>, then minimizes \<open>i\<close>, then \<open>j\<close>.
\<close>

definition candidate ::
  "(string \<Rightarrow> bool) \<Rightarrow> string list \<Rightarrow> string list \<Rightarrow> int \<Rightarrow> int \<Rightarrow> int \<Rightarrow> int \<Rightarrow> block \<Rightarrow> bool" where
  "candidate excluded xs ys alo ahi blo bhi blk =
     (case blk of (i, j, k) \<Rightarrow>
        0 \<le> k \<and> alo \<le> i \<and> i + k \<le> ahi \<and> blo \<le> j \<and> j + k \<le> bhi
        \<and> (\<forall>t. 0 \<le> t \<and> t < k \<longrightarrow>
               item xs (i + t) = item ys (j + t) \<and> \<not> excluded (key_of (item ys (j + t)))))"

definition preferred :: "block \<Rightarrow> block \<Rightarrow> bool" where
  "preferred blk c =
     (case blk of (i, j, k) \<Rightarrow> case c of (i', j', k') \<Rightarrow>
        k' < k \<or> (k' = k \<and> (i < i' \<or> (i = i' \<and> j \<le> j'))))"

definition selected ::
  "(string \<Rightarrow> bool) \<Rightarrow> string list \<Rightarrow> string list \<Rightarrow> int \<Rightarrow> int \<Rightarrow> int \<Rightarrow> int \<Rightarrow> block \<Rightarrow> bool" where
  "selected excluded xs ys alo ahi blo bhi blk =
     (candidate excluded xs ys alo ahi blo bhi blk
      \<and> (\<forall>c. candidate excluded xs ys alo ahi blo bhi c \<longrightarrow> preferred blk c))"

text \<open>
  The greedy extension of a block on both ends, through adjacent equal elements whose
  element of the second sequence tests \<open>want\<close> under \<open>f\<close>: \<open>l\<close> steps to the left and \<open>r\<close> steps
  to the right, each as far as it goes.
\<close>

definition left_ok ::
  "bool \<Rightarrow> (string \<Rightarrow> bool) \<Rightarrow> string list \<Rightarrow> string list \<Rightarrow> int \<Rightarrow> int \<Rightarrow> block \<Rightarrow> int \<Rightarrow> bool" where
  "left_ok want f xs ys alo blo blk t =
     (case blk of (i, j, k) \<Rightarrow>
        alo \<le> i - t \<and> blo \<le> j - t
        \<and> f (key_of (item ys (j - t))) = want \<and> item xs (i - t) = item ys (j - t))"

definition right_ok ::
  "bool \<Rightarrow> (string \<Rightarrow> bool) \<Rightarrow> string list \<Rightarrow> string list \<Rightarrow> int \<Rightarrow> int \<Rightarrow> block \<Rightarrow> int \<Rightarrow> bool" where
  "right_ok want f xs ys ahi bhi blk t =
     (case blk of (i, j, k) \<Rightarrow>
        i + k + t < ahi \<and> j + k + t < bhi
        \<and> f (key_of (item ys (j + k + t))) = want \<and> item xs (i + k + t) = item ys (j + k + t))"

definition greedy ::
  "bool \<Rightarrow> (string \<Rightarrow> bool) \<Rightarrow> string list \<Rightarrow> string list \<Rightarrow> int \<Rightarrow> int \<Rightarrow> int \<Rightarrow> int \<Rightarrow>
   block \<Rightarrow> block \<Rightarrow> bool" where
  "greedy want f xs ys alo ahi blo bhi blk res =
     (\<exists>l r. 0 \<le> l \<and> 0 \<le> r
        \<and> res = (fst blk - l, fst (snd blk) - l, snd (snd blk) + l + r)
        \<and> (\<forall>t. 1 \<le> t \<and> t \<le> l \<longrightarrow> left_ok want f xs ys alo blo blk t)
        \<and> \<not> left_ok want f xs ys alo blo blk (l + 1)
        \<and> (\<forall>t. 0 \<le> t \<and> t < r \<longrightarrow> right_ok want f xs ys ahi bhi blk t)
        \<and> \<not> right_ok want f xs ys ahi bhi blk r)"

text \<open>
  The triple the specification describes: the selected candidate, extended through
  equal elements that are not junk, then through equal elements that are junk.
\<close>

definition described_match ::
  "(string \<Rightarrow> bool) \<Rightarrow> (string \<Rightarrow> bool) \<Rightarrow> string list \<Rightarrow> string list \<Rightarrow> int \<Rightarrow> int \<Rightarrow> int \<Rightarrow> int \<Rightarrow>
   block \<Rightarrow> bool" where
  "described_match excluded junk xs ys alo ahi blo bhi res =
     (\<exists>core mid. selected excluded xs ys alo ahi blo bhi core
        \<and> greedy False junk xs ys alo ahi blo bhi core mid
        \<and> greedy True junk xs ys alo ahi blo bhi mid res)"

text \<open>A newline-terminated single-line string: the only newline is the last character.\<close>

definition newline_terminated :: "string \<Rightarrow> bool" where
  "newline_terminated line =
     (line \<noteq> [] \<and> last line = CHR 0x0A \<and> CHR 0x0A \<notin> set (butlast line))"

section \<open>Two matchers used as examples\<close>

text \<open>
  The matcher of the test of \<open>findLongestMatch\<close>, with the blank as junk, and a matcher
  whose second sequence has 200 elements, 199 of them the element \<open>x\<close>, which autojunk
  makes popular.
\<close>

definition space_example :: matcher where
  "space_example =
     SequenceMatcher (Some (\<lambda>x. x = '' '')) (Some (Str '' abcd'')) (Some (Str ''abcd abcd'')) None"

definition popular_example :: matcher where
  "popular_example =
     SequenceMatcher None (Some (Str ''xxa'')) (Some (Str (CHR ''a'' # replicate 199 CHR ''x''))) None"

text \<open>The two lists of lines of the example in the documentation of \<^verbatim>\<open>ndiff\<close>.\<close>

definition fixture_a :: "string list" where
  "fixture_a = [''one'' @ [CHR 0x0A], ''two'' @ [CHR 0x0A], ''three'' @ [CHR 0x0A]]"

definition fixture_b :: "string list" where
  "fixture_b = [''ore'' @ [CHR 0x0A], ''tree'' @ [CHR 0x0A], ''emu'' @ [CHR 0x0A]]"

section \<open>Auxiliary notions\<close>

subsection \<open>Notions for the matching blocks\<close>

text \<open>
  A block \<open>(i, j, k)\<close> covers the rectangle of the positions \<open>i \<le> a < i + k\<close> of A and
  \<open>j \<le> b < j + k\<close> of B; a window of the queue is a rectangle as well.
\<close>

type_synonym box = "int \<times> int \<times> int \<times> int"

definition box_of_block :: "block \<Rightarrow> box" where
  "box_of_block blk = (case blk of (i, j, k) \<Rightarrow> (i, i + k, j, j + k))"

definition before :: "box \<Rightarrow> box \<Rightarrow> bool" where
  "before p q = (case p of (a0, a1, c0, c1) \<Rightarrow> case q of (a0', a1', c0', c1') \<Rightarrow> a1 \<le> a0' \<and> c1 \<le> c0')"

definition apart :: "box \<Rightarrow> box \<Rightarrow> bool" where
  "apart p q = (before p q \<or> before q p)"

definition inside :: "box \<Rightarrow> box \<Rightarrow> bool" where
  "inside s w = (case s of (a0, a1, c0, c1) \<Rightarrow> case w of (a0', a1', c0', c1') \<Rightarrow>
                   a0' \<le> a0 \<and> a1 \<le> a1' \<and> c0' \<le> c0 \<and> c1 \<le> c1')"

definition good_block :: "string list \<Rightarrow> string list \<Rightarrow> block \<Rightarrow> bool" where
  "good_block xs ys blk =
     (candidate (\<lambda>k. False) xs ys 0 (int (length xs)) 0 (int (length ys)) blk \<and> 0 < snd (snd blk))"

definition wf_window :: "string list \<Rightarrow> string list \<Rightarrow> box \<Rightarrow> bool" where
  "wf_window xs ys w = (case w of (alo, ahi, blo, bhi) \<Rightarrow>
     0 \<le> alo \<and> alo \<le> ahi \<and> ahi \<le> int (length xs) \<and> 0 \<le> blo \<and> blo \<le> bhi \<and> bhi \<le> int (length ys))"

definition block_lt :: "block \<Rightarrow> block \<Rightarrow> bool" where
  "block_lt x y = (block_cmp x y < 0)"

definition before_blk :: "block \<Rightarrow> block \<Rightarrow> bool" where
  "before_blk p q = before (box_of_block p) (box_of_block q)"

definition chain_inv :: "string list \<Rightarrow> string list \<Rightarrow> block list \<Rightarrow> bool" where
  "chain_inv xs ys L = ((\<forall>b\<in>set L. good_block xs ys b) \<and> sorted_wrt before_blk L)"

definition touching :: "block \<Rightarrow> block \<Rightarrow> bool" where
  "touching p q = (case p of (i, j, n) \<Rightarrow> case q of (i', j', n') \<Rightarrow> i + n = i' \<and> j + n = j')"

definition pending :: "block \<Rightarrow> block list" where
  "pending blk = (if snd (snd blk) \<noteq> 0 then [blk] else [])"

definition ascending :: "block \<Rightarrow> block \<Rightarrow> bool" where
  "ascending p q = (case p of (i, j, n) \<Rightarrow> case q of (i', j', n') \<Rightarrow> i < i' \<and> j < j')"

definition matching_triple :: "string list \<Rightarrow> string list \<Rightarrow> block \<Rightarrow> bool" where
  "matching_triple xs ys blk = (case blk of (i, j, n) \<Rightarrow>
     0 \<le> n \<and> 0 \<le> i \<and> i + n \<le> int (length xs) \<and> 0 \<le> j \<and> j + n \<le> int (length ys)
     \<and> (\<forall>t. 0 \<le> t \<and> t < n \<longrightarrow> item xs (i + t) = item ys (j + t)))"

definition canonical :: "string list \<Rightarrow> string list \<Rightarrow> block list \<Rightarrow> bool" where
  "canonical xs ys blocks =
     (blocks \<noteq> [] \<and> last blocks = (int (length xs), int (length ys), 0)
      \<and> (\<forall>blk\<in>set blocks. matching_triple xs ys blk)
      \<and> (\<forall>blk\<in>set (butlast blocks). snd (snd blk) \<noteq> 0)
      \<and> sorted_wrt ascending (butlast blocks)
      \<and> sorted_wrt before_blk (butlast blocks)
      \<and> successively (\<lambda>p q. \<not> touching p q) (butlast blocks))"

subsection \<open>Notions for the dynamic programme and the loops\<close>

text \<open>
  \<open>dp_step\<close> is one round of the inner loop of \<^verbatim>\<open>findLongestMatch\<close>. \<open>run ok alo blo r j\<close> is
  the length of the run of cells \<open>ok\<close> that ends at the cell \<open>(r, j)\<close> going up the diagonal
  inside the window: what \<^verbatim>\<open>j2len\<close> holds. \<open>best_inv\<close> says that \<open>best\<close> is the first longest run
  among the cells of \<open>S\<close>. \<open>window_weight\<close> and \<open>found_in\<close> serve the termination of the queue
  loop and of \<^verbatim>\<open>_fancyReplace\<close>.
\<close>

definition dp_step :: "int \<Rightarrow> (int \<rightharpoonup> int) \<Rightarrow> int \<Rightarrow> (int \<rightharpoonup> int) \<times> block \<Rightarrow> (int \<rightharpoonup> int) \<times> block" where
  "dp_step i j2len j st =
     (case st of (new, (bi, bj, bs)) \<Rightarrow>
        let k = (case j2len (j - 1) of None \<Rightarrow> 0 | Some v \<Rightarrow> v) + 1
        in (new(j \<mapsto> k), if k > bs then (i - k + 1, j - k + 1, k) else (bi, bj, bs)))"

definition val :: "(int \<rightharpoonup> int) \<Rightarrow> int \<Rightarrow> int" where
  "val f j = (case f j of None \<Rightarrow> 0 | Some v \<Rightarrow> v)"

function run :: "(int \<Rightarrow> int \<Rightarrow> bool) \<Rightarrow> int \<Rightarrow> int \<Rightarrow> int \<Rightarrow> int \<Rightarrow> int" where
  "run ok alo blo r j = (if alo \<le> r \<and> blo \<le> j \<and> ok r j then 1 + run ok alo blo (r - 1) (j - 1) else 0)"
  by pat_completeness auto
termination
  by (relation "measure (\<lambda>(ok, alo, blo, r, j). nat (r - alo + 1))") auto

declare run.simps [simp del]

definition cells_before :: "int \<Rightarrow> int \<Rightarrow> int \<Rightarrow> int \<Rightarrow> int \<Rightarrow> (int \<times> int) set" where
  "cells_before alo blo bhi i j =
     {(r, j'). blo \<le> j' \<and> j' < bhi \<and> (alo \<le> r \<and> r < i \<or> r = i \<and> j' < j)}"

definition best_inv :: "(int \<times> int \<Rightarrow> int) \<Rightarrow> int \<Rightarrow> int \<Rightarrow> (int \<times> int) set \<Rightarrow> block \<Rightarrow> bool" where
  "best_inv V alo blo S best =
     (case best of (bi, bj, bs) \<Rightarrow>
        0 \<le> bs \<and> (\<forall>c\<in>S. V c \<le> bs) \<and> (bs = 0 \<longrightarrow> bi = alo \<and> bj = blo)
        \<and> (bs > 0 \<longrightarrow> (bi + bs - 1, bj + bs - 1) \<in> S \<and> V (bi + bs - 1, bj + bs - 1) = bs
             \<and> (\<forall>c\<in>S. V c = bs \<longrightarrow>
                   bi + bs - 1 < fst c \<or> (bi + bs - 1 = fst c \<and> bj + bs - 1 \<le> snd c))))"

definition cell_ok :: "(string \<rightharpoonup> int list) \<Rightarrow> string list \<Rightarrow> string list \<Rightarrow> int \<Rightarrow> int \<Rightarrow> bool" where
  "cell_ok d xs ys r j =
     (item xs r \<noteq> None \<and> item xs r = item ys j \<and> d (key_of (item ys j)) \<noteq> None)"

definition exact_index :: "(string \<rightharpoonup> int list) \<Rightarrow> string list \<Rightarrow> bool" where
  "exact_index d ys =
     (\<forall>k js. d k = Some js \<longrightarrow> sorted_wrt (<) js \<and> set js = {j. item ys j = Some k})"

definition run_at :: "(string \<rightharpoonup> int list) \<Rightarrow> string list \<Rightarrow> string list \<Rightarrow> int \<Rightarrow> int \<Rightarrow> int \<times> int \<Rightarrow> int" where
  "run_at d xs ys alo blo c = run (cell_ok d xs ys) alo blo (fst c) (snd c)"

definition row_inv ::
  "(string \<rightharpoonup> int list) \<Rightarrow> string list \<Rightarrow> string list \<Rightarrow> int \<Rightarrow> int \<Rightarrow> int \<Rightarrow> int \<Rightarrow>
   (int \<rightharpoonup> int) \<times> block \<Rightarrow> bool" where
  "row_inv d xs ys alo blo bhi r st =
     ((\<forall>j. j < bhi \<longrightarrow> val (fst st) j = run (cell_ok d xs ys) alo blo (r - 1) j)
      \<and> best_inv (run_at d xs ys alo blo) alo blo (cells_before alo blo bhi r blo) (snd st))"

definition core_ok :: "int \<Rightarrow> int \<Rightarrow> int set \<Rightarrow> block \<Rightarrow> bool" where
  "core_ok alo blo R best =
     (case best of (bi, bj, bs) \<Rightarrow>
        (bs = 0 \<and> bi = alo \<and> bj = blo) \<or> (bs \<ge> 1 \<and> (\<exists>r\<in>R. bi + bs = r + 1)))"

definition index_of_prefix :: "(string \<rightharpoonup> int list) \<Rightarrow> string list \<Rightarrow> bool" where
  "index_of_prefix d pre =
     (\<forall>k. case d k of
            None \<Rightarrow> k \<notin> set pre \<or> k = proto_key
          | Some js \<Rightarrow> k \<noteq> proto_key \<and> k \<in> set pre \<and> sorted_wrt (<) js
                       \<and> set js = {j. item pre j = Some k})"

definition window_weight :: "int \<times> int \<times> int \<times> int \<Rightarrow> nat" where
  "window_weight w = (case w of (alo, ahi, blo, bhi) \<Rightarrow> 2 * nat (ahi - alo) + 1)"

definition found_in :: "int set \<Rightarrow> int set \<Rightarrow> search \<Rightarrow> bool" where
  "found_in R C st =
     ((\<forall>i. besti st = Some i \<longrightarrow> i \<in> R) \<and> (\<forall>i. eqi st = Some i \<longrightarrow> i \<in> R)
      \<and> (\<forall>j. bestj st = Some j \<longrightarrow> j \<in> C) \<and> (\<forall>j. eqj st = Some j \<longrightarrow> j \<in> C))"

subsection \<open>Notions for the caches\<close>

text \<open>
  \<open>cache_ok\<close>: the cached matching blocks, if any, are a chain of matching blocks of the
  two sequences the matcher holds. \<open>cruncher_ok\<close> is the state of the character matcher
  of \<^verbatim>\<open>_fancyReplace\<close> between two calls.
\<close>

definition cache_ok :: "matcher \<Rightarrow> bool" where
  "cache_ok m =
     (case matchingBlocks m of
        None \<Rightarrow> True
      | Some blocks \<Rightarrow>
          (\<exists>L. blocks = L @ [(int (length (elems (seq_a m))), int (length (elems (seq_b m))), 0)]
             \<and> chain_inv (elems (seq_a m)) (elems (seq_b m)) L
             \<and> successively (\<lambda>p q. \<not> touching p q) L))"

definition cruncher_ok :: "matcher \<Rightarrow> bool" where
  "cruncher_ok m = ((indexed m \<or> seq_b m = Str '''') \<and> cache_ok m \<and> opcodes m = None)"

subsection \<open>Notions for the opcodes\<close>

text \<open>
  \<open>tiles i j ops i' j'\<close>: the opcodes \<open>ops\<close> go in lockstep from \<open>(i, j)\<close> to \<open>(i', j')\<close>, each
  beginning where its predecessor ends. \<open>block_ops\<close> is what one round of the loop of
  \<^verbatim>\<open>getOpcodes\<close> appends.
\<close>

fun tiles :: "int \<Rightarrow> int \<Rightarrow> OpcodeOperation list \<Rightarrow> int \<Rightarrow> int \<Rightarrow> bool" where
  "tiles i j [] i' j' = (i = i' \<and> j = j')"
| "tiles i j ((tag, i1, i2, j1, j2) # ops) i' j' = (i1 = i \<and> j1 = j \<and> tiles i2 j2 ops i' j')"

definition tag_ok :: "OpcodeOperation \<Rightarrow> bool" where
  "tag_ok opc = (case opc of (tag, i1, i2, j1, j2) \<Rightarrow>
     (case tag of
        Delete \<Rightarrow> i1 < i2 \<and> j1 = j2
      | Insert \<Rightarrow> i1 = i2 \<and> j1 < j2
      | Equal \<Rightarrow> i1 < i2 \<and> i2 - i1 = j2 - j1
      | Replace \<Rightarrow> i1 < i2 \<and> j1 < j2))"

definition both_equal :: "OpcodeOperation \<Rightarrow> OpcodeOperation \<Rightarrow> bool" where
  "both_equal p q = (fst p = Equal \<and> fst q = Equal)"

definition equal_ok :: "string list \<Rightarrow> string list \<Rightarrow> OpcodeOperation \<Rightarrow> bool" where
  "equal_ok xs ys opc = (case opc of (tag, i1, i2, j1, j2) \<Rightarrow>
     tag = Equal \<longrightarrow> (\<forall>t. 0 \<le> t \<and> t < i2 - i1 \<longrightarrow> item xs (i1 + t) = item ys (j1 + t)))"

definition tiling :: "string list \<Rightarrow> string list \<Rightarrow> OpcodeOperation list \<Rightarrow> bool" where
  "tiling xs ys ops =
     (tiles 0 0 ops (int (length xs)) (int (length ys))
      \<and> (\<forall>opc\<in>set ops. tag_ok opc \<and> equal_ok xs ys opc)
      \<and> successively (\<lambda>p q. \<not> both_equal p q) ops)"

definition block_ops :: "int \<Rightarrow> int \<Rightarrow> block \<Rightarrow> OpcodeOperation list" where
  "block_ops i j blk = (case blk of (ai, bj, sz) \<Rightarrow>
     (if i < ai \<and> j < bj then [(Replace, i, ai, j, bj)]
      else if i < ai then [(Delete, i, ai, j, bj)]
      else if j < bj then [(Insert, i, ai, j, bj)]
      else [])
     @ (if sz \<noteq> 0 then [(Equal, ai, ai + sz, bj, bj + sz)] else []))"

definition ops_ok :: "string list \<Rightarrow> string list \<Rightarrow> bool \<Rightarrow> int \<Rightarrow> int \<Rightarrow> OpcodeOperation list \<Rightarrow> bool" where
  "ops_ok xs ys e i j ops =
     (tiles i j ops (int (length xs)) (int (length ys))
      \<and> (\<forall>opc\<in>set ops. tag_ok opc \<and> equal_ok xs ys opc)
      \<and> successively (\<lambda>p q. \<not> both_equal p q) ops
      \<and> (e \<longrightarrow> ops \<noteq> [] \<longrightarrow> fst (hd ops) \<noteq> Equal))"

subsection \<open>Notions for the line differ\<close>

text \<open>
  \<open>search_ok\<close>: the state of the search of \<^verbatim>\<open>_fancyReplace\<close> inside the two ranges; a best
  pair, once assigned, is a pair of lines in range whose second line is not empty, and an
  identical pair is a pair of equal lines in range. \<open>keep tag delta\<close> is what the loop of
  \<^verbatim>\<open>restore\<close> collects for the prefix \<open>tag\<close>, and \<open>lines_of x lo hi\<close> the lines \<open>x[lo..hi]\<close>.
\<close>

definition search_ok :: "string list \<Rightarrow> string list \<Rightarrow> int \<Rightarrow> int \<Rightarrow> int \<Rightarrow> int \<Rightarrow> search \<Rightarrow> bool" where
  "search_ok xs ys alo ahi blo bhi st =
     (cruncher_ok (cruncher st) \<and> 0.74 \<le> bestRatio st
      \<and> (0.74 < bestRatio st \<longrightarrow>
           (\<exists>i j bj. besti st = Some i \<and> bestj st = Some j \<and> alo \<le> i \<and> i < ahi \<and> blo \<le> j \<and> j < bhi
                \<and> item ys j = Some bj \<and> bj \<noteq> ''''))
      \<and> (eqi st \<noteq> None \<longrightarrow>
           (\<exists>i j. eqi st = Some i \<and> eqj st = Some j \<and> alo \<le> i \<and> i < ahi \<and> blo \<le> j \<and> j < bhi
                \<and> item xs i = item ys j)))"

definition keep :: "string \<Rightarrow> string list \<Rightarrow> string list" where
  "keep tag delta =
     map (\<lambda>line. js_slice line 2 (int (length line)))
       (filter (\<lambda>line. js_slice line 0 2 \<in> set [''  '', tag]) delta)"

definition lines_of :: "string list \<Rightarrow> int \<Rightarrow> int \<Rightarrow> string list" where
  "lines_of x lo hi = map (\<lambda>i. key_of (item x i)) (range_loop lo hi)"

subsection \<open>Notions for the ratios\<close>

text \<open>
  \<open>count_of ys\<close> is the dictionary \<^verbatim>\<open>fullbcount\<close> of the elements \<open>ys\<close>: the number of its
  occurrences for an element that names no member of \<^verbatim>\<open>Object.prototype\<close>, a value that is
  not a number for one that does, and no key \<^verbatim>\<open>__proto__\<close>. \<open>bump n v\<close> is \<open>n\<close> times \<^verbatim>\<open>+ 1\<close>.
  \<open>countable xs\<close> are the elements of \<open>xs\<close> that \<^verbatim>\<open>quickRatio\<close> can count. \<open>fullbcount_ok\<close>: the
  cached dictionary, if any, is the one of the second sequence. \<open>matched xs L\<close> are the
  elements of \<open>xs\<close> the blocks \<open>L\<close> cover, and \<open>total L\<close> the sum of the sizes of the blocks.
\<close>

fun bump :: "nat \<Rightarrow> tally \<Rightarrow> tally" where
  "bump n (Count v) = Count (v + int n)"
| "bump n NotANumber = NotANumber"

definition count_of :: "string list \<Rightarrow> (string \<rightharpoonup> tally)" where
  "count_of ys =
     (\<lambda>e. if e \<noteq> proto_key \<and> e \<in> set ys
          then Some (if inherited e then NotANumber else Count (int (count (mset ys) e)))
          else None)"

definition countable :: "string list \<Rightarrow> string list" where
  "countable xs = filter (\<lambda>e. \<not> inherited e) xs"

definition fullbcount_ok :: "matcher \<Rightarrow> bool" where
  "fullbcount_ok m =
     (fullbcount m = None \<or> fullbcount m = Some (count_elements Map.empty (elems (seq_b m))))"

definition matched :: "string list \<Rightarrow> block list \<Rightarrow> string list" where
  "matched xs L = concat (map (\<lambda>blk. lines_of xs (fst blk) (fst blk + snd (snd blk))) L)"

definition total :: "block list \<Rightarrow> int" where
  "total L = sum_list (map (\<lambda>blk. snd (snd blk)) L)"

definition matched_b :: "string list \<Rightarrow> block list \<Rightarrow> string list" where
  "matched_b ys L =
     concat (map (\<lambda>blk. lines_of ys (fst (snd blk)) (fst (snd blk) + snd (snd blk))) L)"

section \<open>Auxiliary lemmas: what the operations leave unchanged\<close>

lemma chainB_frame:
  "seq_a (chainB m) = seq_a m" "seq_b (chainB m) = seq_b m"
  "fullbcount (chainB m) = fullbcount m" "matchingBlocks (chainB m) = matchingBlocks m"
  "opcodes (chainB m) = opcodes m" "isjunk (chainB m) = isjunk m"
  "autojunk (chainB m) = autojunk m"
  by (simp_all add: chainB_def Let_def split: prod.splits option.splits)

lemma constructed_fields:
  "seq_a (SequenceMatcher j (Some x) (Some y) aj) = x"
  "seq_b (SequenceMatcher j (Some x) (Some y) aj) = y"
  "isjunk (SequenceMatcher j (Some x) (Some y) aj) = j"
  by (cases x; cases y;
      simp add: SequenceMatcher_def setSeqs_def setSeq1_def setSeq2_def chainB_frame fresh_def)+

text \<open>A matcher constructed on the empty string as second sequence has no index.\<close>

lemma constructed_on_empty_string:
  "b2j (SequenceMatcher j x (Some (Str '''')) aj) = None"
  "isbjunk (SequenceMatcher j x (Some (Str '''')) aj) = None"
  by (simp_all add: SequenceMatcher_def setSeqs_def setSeq1_def setSeq2_def fresh_def)

section \<open>Auxiliary lemmas: the dynamic programme\<close>

lemma scan_row_Cons:
  "scan_row i blo bhi j2len (j # js) st =
     (if j < blo then scan_row i blo bhi j2len js st
      else if j \<ge> bhi then st
      else scan_row i blo bhi j2len js (dp_step i j2len j st))"
  by (cases st) (auto simp: dp_step_def Let_def)

lemma scan_row_Nil: "scan_row i blo bhi j2len [] st = st"
  by (cases st) auto

lemma run_nonneg: "0 \<le> run ok alo blo r j"
  by (induction ok alo blo r j rule: run.induct) (subst run.simps, simp)

lemma run_common:
  "0 \<le> t \<Longrightarrow> t < run ok alo blo r j \<Longrightarrow> ok (r - t) (j - t) \<and> alo \<le> r - t \<and> blo \<le> j - t"
proof (induction ok alo blo r j arbitrary: t rule: run.induct)
  case (1 ok alo blo r j)
  from "1.prems" have c: "alo \<le> r \<and> blo \<le> j \<and> ok r j"
    by (subst (asm) run.simps) (auto split: if_splits)
  show ?case
  proof (cases "t = 0")
    case True
    then show ?thesis using c by simp
  next
    case False
    have "t - 1 < run ok alo blo (r - 1) (j - 1)"
      using "1.prems" c by (subst (asm) run.simps) simp
    from "1.IH"[OF c _ this] False "1.prems"(1) show ?thesis by simp
  qed
qed

lemma run_ge:
  "0 \<le> k \<Longrightarrow> (\<And>t. 0 \<le> t \<Longrightarrow> t < k \<Longrightarrow> ok (r - t) (j - t) \<and> alo \<le> r - t \<and> blo \<le> j - t)
   \<Longrightarrow> k \<le> run ok alo blo r j"
proof (induction ok alo blo r j arbitrary: k rule: run.induct)
  case (1 ok alo blo r j)
  show ?case
  proof (cases "k = 0")
    case True
    then show ?thesis using run_nonneg[of ok alo blo r j] by simp
  next
    case False
    then have kpos: "0 < k" using "1.prems"(1) by simp
    from "1.prems"(2)[of 0] kpos have c: "alo \<le> r \<and> blo \<le> j \<and> ok r j" by simp
    have "k - 1 \<le> run ok alo blo (r - 1) (j - 1)"
    proof (rule "1.IH"[OF c])
      show "0 \<le> k - 1" using kpos by simp
    next
      fix t assume "0 \<le> t" "t < k - 1"
      then show "ok (r - 1 - t) (j - 1 - t) \<and> alo \<le> r - 1 - t \<and> blo \<le> j - 1 - t"
        using "1.prems"(2)[of "t + 1"] by (simp add: algebra_simps)
    qed
    then show ?thesis using c by (subst run.simps) simp
  qed
qed

lemma scan_row_fold:
  "sorted_wrt (<) js \<Longrightarrow>
   scan_row i blo bhi j2len js st
     = foldl (\<lambda>st j. dp_step i j2len j st) st (filter (\<lambda>j. blo \<le> j \<and> j < bhi) js)"
proof (induction js arbitrary: st)
  case Nil
  then show ?case by (simp add: scan_row_Nil)
next
  case (Cons j js)
  have sorted: "sorted_wrt (<) js" and gt: "\<forall>j'\<in>set js. j < j'" using Cons.prems by auto
  show ?case
  proof (cases "j \<ge> bhi")
    case True
    then have "filter (\<lambda>j. blo \<le> j \<and> j < bhi) (j # js) = []"
      using gt by (auto simp: filter_empty_conv)
    moreover have "scan_row i blo bhi j2len (j # js) st
        = (if j < blo then scan_row i blo bhi j2len js st else st)"
      using True by (simp add: scan_row_Cons)
    moreover have "j < blo \<Longrightarrow> scan_row i blo bhi j2len js st = st"
      using Cons.IH[OF sorted, of st] gt True by (auto simp: filter_empty_conv)
    ultimately show ?thesis by auto
  next
    case False
    then show ?thesis using Cons.IH[OF sorted] by (simp add: scan_row_Cons)
  qed
qed

lemma fold_step_map:
  "fst (foldl (\<lambda>st j. dp_step i j2len j st) st js)
     = (\<lambda>j. if j \<in> set js then Some (val j2len (j - 1) + 1) else fst st j)"
proof (induction js arbitrary: st)
  case Nil
  then show ?case by simp
next
  case (Cons j js)
  have "fst (dp_step i j2len j st) = (fst st)(j \<mapsto> val j2len (j - 1) + 1)"
    by (cases st) (auto simp: dp_step_def val_def Let_def)
  then show ?case using Cons.IH[of "dp_step i j2len j st"] by (auto simp: fun_eq_iff)
qed

lemma best_inv_zero:
  "best_inv V alo blo S best \<Longrightarrow> \<forall>c\<in>Z. V c = 0 \<Longrightarrow> best_inv V alo blo (S \<union> Z) best"
  unfolding best_inv_def by (cases best) auto

lemma best_inv_step:
  assumes inv: "best_inv V alo blo S best"
    and before: "\<forall>c\<in>S. fst c < i \<or> (fst c = i \<and> snd c < j)"
    and v: "V (i, j) = val j2len (j - 1) + 1" and pos: "1 \<le> V (i, j)"
  shows "best_inv V alo blo (insert (i, j) S) (snd (dp_step i j2len j (new, best)))"
proof -
  obtain bi bj bs where b: "best = (bi, bj, bs)" by (cases best)
  let ?k = "val j2len (j - 1) + 1"
  have step: "snd (dp_step i j2len j (new, bi, bj, bs))
      = (if ?k > bs then (i - ?k + 1, j - ?k + 1, ?k) else (bi, bj, bs))"
    by (simp add: dp_step_def val_def Let_def)
  show ?thesis
  proof (cases "?k > bs")
    case True
    have "\<forall>c\<in>S. V c < ?k" using inv True unfolding b best_inv_def by fastforce
    then show ?thesis using True v pos inv unfolding b step best_inv_def
      by auto
  next
    case False
    have bs: "0 < bs" using False v pos by simp
    show ?thesis using False v pos inv before bs unfolding b step best_inv_def
      by auto
  qed
qed

lemma fold_best:
  assumes "sorted_wrt (<) js"
    and "\<forall>j\<in>set js. lo \<le> j \<and> blo \<le> j \<and> j < bhi"
    and "\<forall>j\<in>set js. V (i, j) = val j2len (j - 1) + 1 \<and> 1 \<le> V (i, j)"
    and "\<forall>j. lo \<le> j \<and> blo \<le> j \<and> j < bhi \<and> j \<notin> set js \<longrightarrow> V (i, j) = 0"
    and "best_inv V alo blo (cells_before alo blo bhi i lo) (snd st)"
  shows "best_inv V alo blo (cells_before alo blo bhi i bhi)
           (snd (foldl (\<lambda>st j. dp_step i j2len j st) st js))"
  using assms
proof (induction js arbitrary: lo st)
  case Nil
  let ?Z = "{(r, j'). r = i \<and> lo \<le> j' \<and> blo \<le> j' \<and> j' < bhi}"
  have z: "\<forall>c\<in>?Z. V c = 0" using Nil.prems(4) by auto
  have "cells_before alo blo bhi i bhi = cells_before alo blo bhi i lo \<union> ?Z"
    by (auto simp: cells_before_def)
  then show ?case using best_inv_zero[OF Nil.prems(5) z] by simp
next
  case (Cons j js)
  obtain new best where st: "st = (new, best)" by (cases st)
  have sorted: "sorted_wrt (<) js" and gt: "\<forall>j'\<in>set js. j < j'" using Cons.prems(1) by auto
  have jin: "lo \<le> j" "blo \<le> j" "j < bhi" using Cons.prems(2) by auto
  let ?Z = "{(r, j'). r = i \<and> lo \<le> j' \<and> blo \<le> j' \<and> j' < j}"
  have z: "\<forall>c\<in>?Z. V c = 0"
  proof
    fix c assume c: "c \<in> ?Z"
    obtain r y where ry: "c = (r, y)" by (cases c)
    have "y \<notin> set (j # js)" using c gt ry by auto
    then show "V c = 0" using Cons.prems(4) c ry jin by auto
  qed
  have eq: "cells_before alo blo bhi i j = cells_before alo blo bhi i lo \<union> ?Z"
    using jin by (auto simp: cells_before_def)
  have inv1: "best_inv V alo blo (cells_before alo blo bhi i j) best"
    using best_inv_zero[OF _ z] Cons.prems(5) st eq by simp
  have before: "\<forall>c\<in>cells_before alo blo bhi i j. fst c < i \<or> (fst c = i \<and> snd c < j)"
    by (auto simp: cells_before_def)
  have vj: "V (i, j) = val j2len (j - 1) + 1" "1 \<le> V (i, j)" using Cons.prems(3) by auto
  have ins: "insert (i, j) (cells_before alo blo bhi i j) = cells_before alo blo bhi i (j + 1)"
    using jin by (auto simp: cells_before_def)
  have inv2: "best_inv V alo blo (cells_before alo blo bhi i (j + 1)) (snd (dp_step i j2len j st))"
    using best_inv_step[OF inv1 before vj, of new] unfolding ins st .
  have "best_inv V alo blo (cells_before alo blo bhi i bhi)
          (snd (foldl (\<lambda>st j. dp_step i j2len j st) (dp_step i j2len j st) js))"
  proof (rule Cons.IH[OF sorted _ _ _ inv2])
    show "\<forall>j'\<in>set js. j + 1 \<le> j' \<and> blo \<le> j' \<and> j' < bhi" using gt Cons.prems(2) by auto
    show "\<forall>j'\<in>set js. V (i, j') = val j2len (j' - 1) + 1 \<and> 1 \<le> V (i, j')" using Cons.prems(3) by auto
    show "\<forall>j'. j + 1 \<le> j' \<and> blo \<le> j' \<and> j' < bhi \<and> j' \<notin> set js \<longrightarrow> V (i, j') = 0"
      using Cons.prems(4) jin by auto
  qed
  then show ?case by simp
qed

lemma cell_ok_Some:
  "item xs i = Some k \<Longrightarrow> cell_ok d xs ys i j = (item ys j = Some k \<and> d k \<noteq> None)"
  unfolding cell_ok_def key_of_def by (cases "item ys j") auto

lemma row_step:
  assumes ex: "exact_index d ys" and lo: "alo \<le> i" and xi: "item xs i \<noteq> None"
    and inv: "row_inv d xs ys alo blo bhi i st"
  shows "row_inv d xs ys alo blo bhi (i + 1)
           (scan_row i blo bhi (fst st)
              (case d (key_of (item xs i)) of None \<Rightarrow> [] | Some js \<Rightarrow> js) (Map.empty, snd st))"
proof -
  let ?ok = "cell_ok d xs ys"
  let ?V = "run_at d xs ys alo blo"
  define js where "js = (case d (key_of (item xs i)) of None \<Rightarrow> [] | Some js \<Rightarrow> js)"
  define js' where "js' = filter (\<lambda>j. blo \<le> j \<and> j < bhi) js"
  obtain k where k: "item xs i = Some k" using xi by auto
  have sorted: "sorted_wrt (<) js"
    using ex unfolding exact_index_def js_def by (auto split: option.splits)
  have sorted': "sorted_wrt (<) js'" unfolding js'_def using sorted by (rule sorted_wrt_filter)
  have mem: "\<And>j. j \<in> set js \<longleftrightarrow> ?ok i j"
  proof (cases "d k")
    case None
    then show "\<And>j. j \<in> set js \<longleftrightarrow> ?ok i j"
      using k by (simp add: cell_ok_Some key_of_def js_def)
  next
    case (Some l)
    then have "set l = {j. item ys j = Some k}" using ex unfolding exact_index_def by blast
    then show "\<And>j. j \<in> set js \<longleftrightarrow> ?ok i j"
      using k Some by (simp add: cell_ok_Some key_of_def js_def)
  qed
  have mem': "\<And>j. j \<in> set js' \<longleftrightarrow> blo \<le> j \<and> j < bhi \<and> ?ok i j"
    using mem by (auto simp: js'_def)
  have prev: "\<And>j. j < bhi \<Longrightarrow> val (fst st) j = run ?ok alo blo (i - 1) j"
    using inv unfolding row_inv_def by simp
  have runin: "\<And>j. j \<in> set js' \<Longrightarrow> run ?ok alo blo i j = val (fst st) (j - 1) + 1"
  proof -
    fix j assume "j \<in> set js'"
    then have j: "blo \<le> j" "j < bhi" "?ok i j" using mem' by auto
    then show "run ?ok alo blo i j = val (fst st) (j - 1) + 1"
      using lo prev[of "j - 1"] by (subst run.simps) simp
  qed
  have runout: "\<And>j. j < bhi \<Longrightarrow> j \<notin> set js' \<Longrightarrow> run ?ok alo blo i j = 0"
    using mem' by (subst run.simps) auto
  have eq: "scan_row i blo bhi (fst st) js (Map.empty, snd st)
      = foldl (\<lambda>s j. dp_step i (fst st) j s) (Map.empty, snd st) js'"
    unfolding js'_def using scan_row_fold[OF sorted] .
  have map: "\<forall>j. j < bhi \<longrightarrow>
      val (fst (foldl (\<lambda>s j. dp_step i (fst st) j s) (Map.empty, snd st) js')) j
        = run ?ok alo blo (i + 1 - 1) j"
  proof (intro allI impI)
    fix j assume j: "j < bhi"
    show "val (fst (foldl (\<lambda>s j. dp_step i (fst st) j s) (Map.empty, snd st) js')) j
        = run ?ok alo blo (i + 1 - 1) j"
    proof (cases "j \<in> set js'")
      case True
      then show ?thesis using runin[OF True] by (simp add: fold_step_map val_def)
    next
      case False
      then show ?thesis using runout[OF j False] by (simp add: fold_step_map val_def)
    qed
  qed
  have best0: "best_inv ?V alo blo (cells_before alo blo bhi i blo) (snd (Map.empty :: int \<rightharpoonup> int, snd st))"
    using inv unfolding row_inv_def by simp
  have best: "best_inv ?V alo blo (cells_before alo blo bhi i bhi)
      (snd (foldl (\<lambda>s j. dp_step i (fst st) j s) (Map.empty, snd st) js'))"
  proof (rule fold_best[OF sorted' _ _ _ best0])
    show "\<forall>j\<in>set js'. blo \<le> j \<and> blo \<le> j \<and> j < bhi" using mem' by auto
    show "\<forall>j\<in>set js'. ?V (i, j) = val (fst st) (j - 1) + 1 \<and> 1 \<le> ?V (i, j)"
    proof
      fix j assume j: "j \<in> set js'"
      have "0 \<le> run ?ok alo blo (i - 1) (j - 1)" by (rule run_nonneg)
      moreover have "j - 1 < bhi" using j mem' by auto
      ultimately have "0 \<le> val (fst st) (j - 1)" using prev[of "j - 1"] by simp
      then show "?V (i, j) = val (fst st) (j - 1) + 1 \<and> 1 \<le> ?V (i, j)"
        using runin[OF j] by (simp add: run_at_def)
    qed
    show "\<forall>j. blo \<le> j \<and> blo \<le> j \<and> j < bhi \<and> j \<notin> set js' \<longrightarrow> ?V (i, j) = 0"
      using runout by (simp add: run_at_def)
  qed
  have cells: "cells_before alo blo bhi i bhi = cells_before alo blo bhi (i + 1) blo"
    using lo by (auto simp: cells_before_def)
  show ?thesis
    unfolding row_inv_def js_def[symmetric] eq using map best cells by simp
qed

lemma scan_rows_inv:
  assumes ex: "exact_index d ys"
  shows "alo \<le> r \<Longrightarrow> r \<le> h + 1 \<Longrightarrow> \<forall>i. r \<le> i \<and> i \<le> h \<longrightarrow> item xs i \<noteq> None \<Longrightarrow>
         row_inv d xs ys alo blo bhi r st \<Longrightarrow>
         row_inv d xs ys alo blo bhi (h + 1) (scan_rows xs d blo bhi [r..h] st)"
proof (induction r h arbitrary: st rule: upto.induct)
  case (1 r h)
  obtain j2len best where st: "st = (j2len, best)" by (cases st)
  show ?case
  proof (cases "r \<le> h")
    case True
    have step: "row_inv d xs ys alo blo bhi (r + 1)
        (scan_row r blo bhi (fst st) (case d (key_of (item xs r)) of None \<Rightarrow> [] | Some js \<Rightarrow> js)
           (Map.empty, snd st))"
      using row_step[OF ex "1.prems"(1) _ "1.prems"(4)] "1.prems"(3) True by simp
    have "row_inv d xs ys alo blo bhi (h + 1)
        (scan_rows xs d blo bhi [r + 1..h]
          (scan_row r blo bhi (fst st) (case d (key_of (item xs r)) of None \<Rightarrow> [] | Some js \<Rightarrow> js)
             (Map.empty, snd st)))"
      using "1.IH"[OF True _ _ _ step] "1.prems" True by simp
    then show ?thesis using True by (subst upto.simps) (simp add: st Let_def)
  next
    case False
    then have "r = h + 1" using "1.prems"(2) by simp
    then show ?thesis using "1.prems"(4) False by (subst upto.simps) (simp add: st)
  qed
qed

lemma scan_row_rule:
  assumes "P st"
    and "\<And>st j. P st \<Longrightarrow> j \<in> set js \<Longrightarrow> blo \<le> j \<Longrightarrow> j < bhi \<Longrightarrow> P (dp_step i j2len j st)"
  shows "P (scan_row i blo bhi j2len js st)"
  using assms
proof (induction js arbitrary: st)
  case Nil
  then show ?case by (simp add: scan_row_Nil)
next
  case (Cons j js)
  show ?case
    unfolding scan_row_Cons
    using Cons.prems(1) Cons.prems(2)[of st j] Cons.IH[of st] Cons.IH[of "dp_step i j2len j st"] Cons.prems(2)
    by (auto simp del: scan_row.simps)
qed

lemma dp_step_core_ok:
  "core_ok alo blo R (snd st) \<Longrightarrow> i \<in> R \<Longrightarrow> core_ok alo blo R (snd (dp_step i j2len j st))"
  by (cases st) (auto simp: core_ok_def dp_step_def Let_def)

lemma scan_row_core_ok:
  assumes "core_ok alo blo R (snd st)" and "i \<in> R"
  shows "core_ok alo blo R (snd (scan_row i blo' bhi j2len js st))"
  by (rule scan_row_rule[where P = "\<lambda>st. core_ok alo blo R (snd st)"])
     (use assms dp_step_core_ok in auto)

lemma scan_rows_core_ok:
  "core_ok alo blo R (snd st) \<Longrightarrow> set rows \<subseteq> R \<Longrightarrow>
   core_ok alo blo R (snd (scan_rows xs d blo' bhi rows st))"
proof (induction rows arbitrary: st)
  case Nil
  then show ?case by (cases st) simp
next
  case (Cons i rows)
  obtain j2len best where st: "st = (j2len, best)" by (cases st)
  show ?case
    unfolding st scan_rows.simps Let_def
    apply (rule Cons.IH)
    using Cons.prems scan_row_core_ok[of alo blo R "(Map.empty, best)" i] by (auto simp: st)
qed

section \<open>Auxiliary lemmas: the index of the second sequence\<close>

lemma item_snoc: "item (pre @ [e]) j = (if j = int (length pre) then Some e else item pre j)"
  by (auto simp: item_def nth_append)

lemma item_Some_iff: "item ys j = Some k \<longleftrightarrow> 0 \<le> j \<and> j < int (length ys) \<and> ys ! nat j = k"
  by (auto simp: item_def)

lemma item_length [simp]: "item pre (int (length pre)) = None"
  by (simp add: item_def)

lemma item_in_set: "item ys j = Some k \<Longrightarrow> k \<in> set ys"
  by (auto simp: item_def split: if_splits)

lemma in_set_item: "k \<in> set ys \<Longrightarrow> \<exists>j. item ys j = Some k"
proof -
  assume "k \<in> set ys"
  then obtain n where "n < length ys" "ys ! n = k" by (auto simp: in_set_conv_nth)
  then have "item ys (int n) = Some k" by (simp add: item_def)
  then show ?thesis ..
qed

lemma index_of_prefix_step:
  assumes "index_of_prefix d pre"
  shows "index_of_prefix
           (assign d e ((case d e of None \<Rightarrow> [] | Some indices \<Rightarrow> indices) @ [int (length pre)]))
           (pre @ [e])"
  unfolding index_of_prefix_def
proof
  fix k
  let ?d' = "assign d e ((case d e of None \<Rightarrow> [] | Some indices \<Rightarrow> indices) @ [int (length pre)])"
  have old: "case d k of None \<Rightarrow> k \<notin> set pre \<or> k = proto_key
            | Some js \<Rightarrow> k \<noteq> proto_key \<and> k \<in> set pre \<and> sorted_wrt (<) js
                         \<and> set js = {j. item pre j = Some k}"
    using assms unfolding index_of_prefix_def by blast
  show "case ?d' k of None \<Rightarrow> k \<notin> set (pre @ [e]) \<or> k = proto_key
        | Some js \<Rightarrow> k \<noteq> proto_key \<and> k \<in> set (pre @ [e]) \<and> sorted_wrt (<) js
                     \<and> set js = {j. item (pre @ [e]) j = Some k}"
  proof (cases "e = proto_key")
    case p: True
    then have same: "?d' = d" by (simp add: assign_def)
    show ?thesis
    proof (cases "k = e")
      case True
      then have "d k = None" using old p by (cases "d k") auto
      then show ?thesis using True p same by simp
    next
      case False
      then show ?thesis using old same by (cases "d k") (auto simp: item_snoc)
    qed
  next
    case np: False
    then have upd: "?d' = d(e \<mapsto> (case d e of None \<Rightarrow> [] | Some indices \<Rightarrow> indices) @ [int (length pre)])"
      by (simp add: assign_def)
    show ?thesis
    proof (cases "k = e")
      case False
      then show ?thesis using old upd by (cases "d k") (auto simp: item_snoc)
    next
      case True
      show ?thesis
      proof (cases "d e")
        case None
        then have "e \<notin> set pre" using old True np by simp
        then have "\<And>j. item pre j \<noteq> Some e" using item_in_set by fastforce
        then show ?thesis using True None np upd by (auto simp: item_snoc)
      next
        case (Some js)
        then have js: "sorted_wrt (<) js" "set js = {j. item pre j = Some e}" using old True by auto
        have "\<forall>j\<in>set js. j < int (length pre)" using js(2) by (auto simp: item_Some_iff)
        then have "sorted_wrt (<) (js @ [int (length pre)])" using js(1) by (simp add: sorted_wrt_append)
        then show ?thesis using True Some js(2) np upd by (auto simp: item_snoc)
      qed
    qed
  qed
qed

lemma chain_indices_prefix:
  "index_of_prefix d pre \<Longrightarrow> index_of_prefix (chain_indices d (int (length pre)) suf) (pre @ suf)"
proof (induction suf arbitrary: d pre)
  case Nil
  then show ?case by simp
next
  case (Cons e suf)
  have "index_of_prefix
          (chain_indices (assign d e ((case d e of None \<Rightarrow> [] | Some indices \<Rightarrow> indices) @ [int (length pre)]))
             (int (length (pre @ [e]))) suf) ((pre @ [e]) @ suf)"
    by (rule Cons.IH[OF index_of_prefix_step[OF Cons.prems]])
  then show ?case by (simp add: add.commute)
qed

lemma chain_indices_exact: "index_of_prefix (chain_indices Map.empty 0 ys) ys"
  using chain_indices_prefix[of Map.empty "[]" ys] by (simp add: index_of_prefix_def)

lemma purge_junk_eq:
  "purge_junk f ks (d, junk)
     = ((\<lambda>k. if k \<in> set ks \<and> f k then None else d k),
        (\<lambda>k. if k \<in> set ks \<and> f k then Some True else junk k))"
  by (induction ks arbitrary: d junk) (auto simp: fun_eq_iff)

lemma purge_popular_eq:
  "purge_popular n ks (d, pop)
     = ((\<lambda>k. if k \<in> set ks \<and> (\<exists>l. d k = Some l \<and> int (length l) > n) then None else d k),
        (\<lambda>k. if k \<in> set ks \<and> (\<exists>l. d k = Some l \<and> int (length l) > n) then Some True else pop k))"
  by (induction ks arbitrary: d pop) (auto simp: fun_eq_iff split: option.splits)

text \<open>What chainB leaves in the three B-derived fields.\<close>

lemma chainB_index:
  "\<exists>d fj fp. b2j (chainB m) = Some d \<and> isbjunk (chainB m) = Some fj \<and> isbpopular (chainB m) = Some fp
     \<and> exact_index d (elems (seq_b m))
     \<and> (\<forall>k. d k \<noteq> None \<longleftrightarrow> k \<in> set (elems (seq_b m)) \<and> \<not> (fj k \<or> fp k \<or> k = proto_key))
     \<and> (\<forall>k. fj k \<longleftrightarrow> k \<in> set (elems (seq_b m)) \<and> k \<noteq> proto_key \<and> (\<exists>f. isjunk m = Some f \<and> f k))"
proof -
  define ys where "ys = elems (seq_b m)"
  define ks where "ks = filter (\<lambda>elt. elt \<noteq> proto_key) (remdups ys)"
  define d0 where "d0 = chain_indices Map.empty 0 ys"
  define p1 where "p1 = (case isjunk m of None \<Rightarrow> (d0, Map.empty)
                         | Some f \<Rightarrow> purge_junk f ks (d0, Map.empty))"
  define p2 where "p2 = (if autojunk m \<and> int (length ys) \<ge> 200
                         then purge_popular (int (length ys) div 100 + 1) ks (fst p1, Map.empty)
                         else (fst p1, Map.empty))"
  define junkp where "junkp = (\<lambda>k. \<exists>f. isjunk m = Some f \<and> f k)"
  define popp where "popp = (\<lambda>k. autojunk m \<and> int (length ys) \<ge> 200 \<and> k \<in> set ks
                                \<and> (\<exists>l. fst p1 k = Some l \<and> int (length l) > int (length ys) div 100 + 1))"
  have c: "chainB m = m\<lparr>b2j := Some (fst p2), isbjunk := Some (has (snd p1)),
                         isbpopular := Some (has (snd p2))\<rparr>"
    unfolding chainB_def Let_def case_prod_beta p2_def p1_def d0_def ks_def ys_def by (rule refl)
  have ksset: "\<And>k. k \<in> set ks \<longleftrightarrow> k \<in> set ys \<and> k \<noteq> proto_key" by (simp add: ks_def)
  have d0: "index_of_prefix d0 ys" unfolding d0_def by (rule chain_indices_exact)
  have d0dom: "\<And>k. d0 k \<noteq> None \<longleftrightarrow> k \<in> set ks"
    unfolding ksset using d0 unfolding index_of_prefix_def by (auto split: option.splits dest: spec)
  have d0none: "\<And>k. k \<notin> set ks \<Longrightarrow> d0 k = None" using d0dom by blast
  have d0ex: "\<And>k js. d0 k = Some js \<Longrightarrow> sorted_wrt (<) js \<and> set js = {j. item ys j = Some k}"
    using d0 unfolding index_of_prefix_def by (auto split: option.splits dest: spec)
  have p1a: "fst p1 = (\<lambda>k. if junkp k then None else d0 k)"
    using d0none by (auto simp: p1_def junkp_def purge_junk_eq fun_eq_iff split: option.splits)
  have p1b: "\<And>k. has (snd p1) k \<longleftrightarrow> k \<in> set ks \<and> junkp k"
    by (auto simp: p1_def junkp_def purge_junk_eq has_def split: option.splits)
  have p2a: "fst p2 = (\<lambda>k. if popp k then None else fst p1 k)"
    by (auto simp: p2_def popp_def purge_popular_eq fun_eq_iff)
  have p2b: "\<And>k. has (snd p2) k \<longleftrightarrow> popp k"
    by (auto simp: p2_def popp_def purge_popular_eq has_def)
  have sub: "\<And>k js. fst p2 k = Some js \<Longrightarrow> d0 k = Some js"
    by (auto simp: p2a p1a split: if_splits)
  have "b2j (chainB m) = Some (fst p2)" "isbjunk (chainB m) = Some (has (snd p1))"
    "isbpopular (chainB m) = Some (has (snd p2))" by (simp_all add: c)
  moreover have "exact_index (fst p2) (elems (seq_b m))"
    unfolding exact_index_def ys_def[symmetric] using sub d0ex by blast
  moreover have "\<forall>k. fst p2 k \<noteq> None \<longleftrightarrow>
      k \<in> set (elems (seq_b m)) \<and> \<not> (has (snd p1) k \<or> has (snd p2) k \<or> k = proto_key)"
    unfolding ys_def[symmetric] p1b p2b using d0dom ksset by (auto simp: p2a p1a)
  moreover have "\<forall>k. has (snd p1) k \<longleftrightarrow>
      k \<in> set (elems (seq_b m)) \<and> k \<noteq> proto_key \<and> (\<exists>f. isjunk m = Some f \<and> f k)"
    unfolding ys_def[symmetric] p1b junkp_def ksset by simp
  ultimately show ?thesis by blast
qed

section \<open>Auxiliary lemmas: the extension loops and the termination of the work queue\<close>

declare extend_left.simps [simp del] extend_right.simps [simp del]

lemma extend_left_spec:
  "\<exists>l\<ge>0. extend_left want f xs ys alo blo (i, j, k) = (i - l, j - l, k + l)
     \<and> (\<forall>t. 1 \<le> t \<and> t \<le> l \<longrightarrow> left_ok want f xs ys alo blo (i, j, k) t)
     \<and> \<not> left_ok want f xs ys alo blo (i, j, k) (l + 1)"
proof (induction want f xs ys alo blo "(i, j, k)" arbitrary: i j k rule: extend_left.induct)
  case (1 want f xs ys alo blo besti bestj bestsize)
  let ?c = "besti > alo \<and> bestj > blo \<and> f (key_of (item ys (bestj - 1))) = want
            \<and> item xs (besti - 1) = item ys (bestj - 1)"
  show ?case
  proof (cases ?c)
    case True
    from "1.hyps"[OF True] obtain l where l: "0 \<le> l"
      "extend_left want f xs ys alo blo (besti - 1, bestj - 1, bestsize + 1)
         = (besti - 1 - l, bestj - 1 - l, bestsize + 1 + l)"
      "\<forall>t. 1 \<le> t \<and> t \<le> l \<longrightarrow> left_ok want f xs ys alo blo (besti - 1, bestj - 1, bestsize + 1) t"
      "\<not> left_ok want f xs ys alo blo (besti - 1, bestj - 1, bestsize + 1) (l + 1)"
      by blast
    have shift: "\<And>t. left_ok want f xs ys alo blo (besti - 1, bestj - 1, bestsize + 1) t
        = left_ok want f xs ys alo blo (besti, bestj, bestsize) (t + 1)"
      by (simp add: left_ok_def algebra_simps)
    have one: "left_ok want f xs ys alo blo (besti, bestj, bestsize) 1"
      using True by (simp add: left_ok_def)
    have all: "\<forall>t. 1 \<le> t \<and> t \<le> l + 1 \<longrightarrow> left_ok want f xs ys alo blo (besti, bestj, bestsize) t"
    proof (intro allI impI)
      fix t assume t: "1 \<le> t \<and> t \<le> l + 1"
      show "left_ok want f xs ys alo blo (besti, bestj, bestsize) t"
      proof (cases "t = 1")
        case True then show ?thesis using one by simp
      next
        case False
        then have "1 \<le> t - 1 \<and> t - 1 \<le> l" using t by simp
        then show ?thesis using l(3) shift[of "t - 1"] by simp
      qed
    qed
    have res: "extend_left want f xs ys alo blo (besti, bestj, bestsize)
        = (besti - (l + 1), bestj - (l + 1), bestsize + (l + 1))"
      using True l(2) by (subst extend_left.simps) (simp add: algebra_simps)
    have last: "\<not> left_ok want f xs ys alo blo (besti, bestj, bestsize) (l + 1 + 1)"
      using l(4) shift[of "l + 1"] by simp
    show ?thesis
      using l(1) res all last by (intro exI[of _ "l + 1"]) simp
  next
    case False
    then have "\<not> left_ok want f xs ys alo blo (besti, bestj, bestsize) 1"
      by (auto simp: left_ok_def)
    moreover have "extend_left want f xs ys alo blo (besti, bestj, bestsize) = (besti, bestj, bestsize)"
      using False by (subst extend_left.simps) auto
    ultimately show ?thesis by (intro exI[of _ 0]) auto
  qed
qed

lemma extend_right_spec:
  "\<exists>r\<ge>0. extend_right want f xs ys ahi bhi (i, j, k) = (i, j, k + r)
     \<and> (\<forall>t. 0 \<le> t \<and> t < r \<longrightarrow> right_ok want f xs ys ahi bhi (i, j, k) t)
     \<and> \<not> right_ok want f xs ys ahi bhi (i, j, k) r"
proof (induction want f xs ys ahi bhi "(i, j, k)" arbitrary: k rule: extend_right.induct)
  case (1 want f xs ys ahi bhi bestsize)
  let ?c = "i + bestsize < ahi \<and> j + bestsize < bhi \<and> f (key_of (item ys (j + bestsize))) = want
            \<and> item xs (i + bestsize) = item ys (j + bestsize)"
  show ?case
  proof (cases ?c)
    case True
    from "1.hyps"[OF True] obtain r where r: "0 \<le> r"
      "extend_right want f xs ys ahi bhi (i, j, bestsize + 1) = (i, j, bestsize + 1 + r)"
      "\<forall>t. 0 \<le> t \<and> t < r \<longrightarrow> right_ok want f xs ys ahi bhi (i, j, bestsize + 1) t"
      "\<not> right_ok want f xs ys ahi bhi (i, j, bestsize + 1) r"
      by blast
    have shift: "\<And>t. right_ok want f xs ys ahi bhi (i, j, bestsize + 1) t
        = right_ok want f xs ys ahi bhi (i, j, bestsize) (t + 1)"
      by (simp add: right_ok_def algebra_simps)
    have zero: "right_ok want f xs ys ahi bhi (i, j, bestsize) 0"
      using True by (simp add: right_ok_def)
    have all: "\<forall>t. 0 \<le> t \<and> t < r + 1 \<longrightarrow> right_ok want f xs ys ahi bhi (i, j, bestsize) t"
    proof (intro allI impI)
      fix t assume t: "0 \<le> t \<and> t < r + 1"
      show "right_ok want f xs ys ahi bhi (i, j, bestsize) t"
      proof (cases "t = 0")
        case True then show ?thesis using zero by simp
      next
        case False
        then have "0 \<le> t - 1 \<and> t - 1 < r" using t by simp
        then show ?thesis using r(3) shift[of "t - 1"] by simp
      qed
    qed
    have res: "extend_right want f xs ys ahi bhi (i, j, bestsize) = (i, j, bestsize + (r + 1))"
      using True r(2) by (subst extend_right.simps) (simp add: algebra_simps)
    have last: "\<not> right_ok want f xs ys ahi bhi (i, j, bestsize) (r + 1)"
      using r(4) shift[of r] by simp
    show ?thesis
      using r(1) res all last by (intro exI[of _ "r + 1"]) simp
  next
    case False
    then have "\<not> right_ok want f xs ys ahi bhi (i, j, bestsize) 0"
      by (auto simp: right_ok_def)
    moreover have "extend_right want f xs ys ahi bhi (i, j, bestsize) = (i, j, bestsize)"
      using False by (subst extend_right.simps) auto
    ultimately show ?thesis by (intro exI[of _ 0]) auto
  qed
qed

lemma extend_all_bounds:
  assumes "extend_all m alo ahi blo bhi (bi, bj, bs) = Inr (i, j, k)"
  shows "i \<le> bi \<and> bs \<le> k \<and> bi + bs \<le> i + k \<and> (i < bi \<longrightarrow> alo \<le> i)
       \<and> (bi + bs < i + k \<longrightarrow> i + k \<le> ahi)"
proof (cases "isbjunk m")
  case None
  then show ?thesis using assms by (auto simp: extend_all_def Let_def split: if_splits)
next
  case (Some f)
  let ?xs = "elems (seq_a m)" and ?ys = "elems (seq_b m)"
  obtain l1 where l1: "0 \<le> l1"
      "extend_left False f ?xs ?ys alo blo (bi, bj, bs) = (bi - l1, bj - l1, bs + l1)"
      "\<forall>t. 1 \<le> t \<and> t \<le> l1 \<longrightarrow> left_ok False f ?xs ?ys alo blo (bi, bj, bs) t"
    using extend_left_spec[of False f ?xs ?ys alo blo bi bj bs] by blast
  obtain r1 where r1: "0 \<le> r1"
      "extend_right False f ?xs ?ys ahi bhi (bi - l1, bj - l1, bs + l1) = (bi - l1, bj - l1, bs + l1 + r1)"
      "\<forall>t. 0 \<le> t \<and> t < r1 \<longrightarrow> right_ok False f ?xs ?ys ahi bhi (bi - l1, bj - l1, bs + l1) t"
    using extend_right_spec[of False f ?xs ?ys ahi bhi "bi - l1" "bj - l1" "bs + l1"] by blast
  obtain l2 where l2: "0 \<le> l2"
      "extend_left True f ?xs ?ys alo blo (bi - l1, bj - l1, bs + l1 + r1)
         = (bi - l1 - l2, bj - l1 - l2, bs + l1 + r1 + l2)"
      "\<forall>t. 1 \<le> t \<and> t \<le> l2 \<longrightarrow> left_ok True f ?xs ?ys alo blo (bi - l1, bj - l1, bs + l1 + r1) t"
    using extend_left_spec[of True f ?xs ?ys alo blo "bi - l1" "bj - l1" "bs + l1 + r1"] by blast
  obtain r2 where r2: "0 \<le> r2"
      "extend_right True f ?xs ?ys ahi bhi (bi - l1 - l2, bj - l1 - l2, bs + l1 + r1 + l2)
         = (bi - l1 - l2, bj - l1 - l2, bs + l1 + r1 + l2 + r2)"
      "\<forall>t. 0 \<le> t \<and> t < r2 \<longrightarrow>
          right_ok True f ?xs ?ys ahi bhi (bi - l1 - l2, bj - l1 - l2, bs + l1 + r1 + l2) t"
    using extend_right_spec[of True f ?xs ?ys ahi bhi "bi - l1 - l2" "bj - l1 - l2" "bs + l1 + r1 + l2"]
    by blast
  have res: "i = bi - l1 - l2" "k = bs + l1 + r1 + l2 + r2"
    using assms Some l1(2) r1(2) l2(2) r2(2) by (simp_all add: extend_all_def Let_def)
  have a1: "1 \<le> l1 \<longrightarrow> alo \<le> bi - l1" using l1(3) by (auto simp: left_ok_def)
  have a2: "1 \<le> l2 \<longrightarrow> alo \<le> bi - l1 - l2" using l2(3) by (auto simp: left_ok_def)
  have b1: "1 \<le> r1 \<longrightarrow> bi + bs + r1 - 1 < ahi"
    using r1(3)[rule_format, of "r1 - 1"] by (auto simp: right_ok_def)
  have b2: "1 \<le> r2 \<longrightarrow> bi + bs + r1 + r2 - 1 < ahi"
    using r2(3)[rule_format, of "r2 - 1"] by (auto simp: right_ok_def)
  show ?thesis using res l1(1) r1(1) l2(1) r2(1) a1 a2 b1 b2
    by (cases "1 \<le> l1"; cases "1 \<le> l2"; cases "1 \<le> r1"; cases "1 \<le> r2"; simp)
qed

lemma longest_core_generic:
  assumes "longest_core m alo ahi blo bhi = Inr best"
  shows "core_ok alo blo (set (range_loop alo ahi)) best"
proof (cases "range_loop alo ahi")
  case Nil
  then show ?thesis using assms by (auto simp: longest_core_def core_ok_def)
next
  case (Cons i rows)
  then obtain d where d: "b2j m = Some d" using assms by (cases "b2j m") (auto simp: longest_core_def)
  have "best = snd (scan_rows (elems (seq_a m)) d blo bhi (range_loop alo ahi) (Map.empty, (alo, blo, 0)))"
    using assms Cons d by (simp add: longest_core_def)
  moreover have "core_ok alo blo (set (range_loop alo ahi)) (snd (Map.empty :: int \<rightharpoonup> int, (alo, blo, 0)))"
    by (simp add: core_ok_def)
  ultimately show ?thesis using scan_rows_core_ok[OF _ subset_refl] by blast
qed

lemma flm_generic:
  assumes "findLongestMatch m alo ahi blo bhi = Inr (i, j, k)"
  shows "0 \<le> k
       \<and> (k \<noteq> 0 \<longrightarrow> (alo \<le> ahi \<longrightarrow> alo + 1 \<le> i + k \<and> i + k \<le> ahi)
                  \<and> (ahi < alo \<longrightarrow> i \<le> alo \<and> ahi \<le> i + k))"
proof -
  obtain bi bj bs where core: "longest_core m alo ahi blo bhi = Inr (bi, bj, bs)"
    and ext: "extend_all m alo ahi blo bhi (bi, bj, bs) = Inr (i, j, k)"
    using assms unfolding findLongestMatch_def
    by (cases "longest_core m alo ahi blo bhi") (auto split: prod.splits)
  have ok: "core_ok alo blo (set (range_loop alo ahi)) (bi, bj, bs)"
    using longest_core_generic[OF core] .
  have e: "i \<le> bi" "bs \<le> k" "bi + bs \<le> i + k" "i < bi \<longrightarrow> alo \<le> i"
      "bi + bs < i + k \<longrightarrow> i + k \<le> ahi"
    using extend_all_bounds[OF ext] by auto
  from ok consider (zero) "bs = 0" "bi = alo" "bj = blo"
    | (pos) r where "bs \<ge> 1" "r \<in> set (range_loop alo ahi)" "bi + bs = r + 1"
    unfolding core_ok_def by auto
  then show ?thesis
  proof cases
    case zero
    then show ?thesis using e by auto
  next
    case pos
    then show ?thesis using e by (auto simp: range_loop_def split: if_splits)
  qed
qed

termination match_queue
  apply (relation "measure (\<lambda>(m, queue, acc). sum_list (map window_weight queue))")
    apply simp
  subgoal for m alo ahi blo bhi queue acc x2 i y j k
    using flm_generic[of m alo ahi blo bhi i j k] by (auto simp: window_weight_def)
  subgoal by (simp add: window_weight_def)
  done

section \<open>Auxiliary lemmas: the search of the line differ and its termination\<close>

lemma search_row_found:
  "search_row xs bj j rows st = Inr st' \<Longrightarrow> found_in R C st \<Longrightarrow> set rows \<subseteq> R \<Longrightarrow> j \<in> C \<Longrightarrow>
   found_in R C st'"
proof (induction rows arbitrary: st)
  case Nil
  then show ?case by simp
next
  case (Cons i rows)
  have iR: "i \<in> R" and sub: "set rows \<subseteq> R" using Cons.prems(3) by auto
  have keep: "\<And>c. found_in R C (st\<lparr>cruncher := c\<rparr>)" using Cons.prems(2) by (simp add: found_in_def)
  have new: "\<And>c r. found_in R C (st\<lparr>cruncher := c, bestRatio := r, besti := Some i, bestj := Some j\<rparr>)"
    using Cons.prems(2) iR Cons.prems(4) by (simp add: found_in_def)
  have eq: "found_in R C (if eqi st = None then st\<lparr>eqi := Some i, eqj := Some j\<rparr> else st)"
    using Cons.prems(2) iR Cons.prems(4) by (simp add: found_in_def)
  show ?case
    using Cons.prems(1) Cons.IH[OF _ keep sub Cons.prems(4)] Cons.IH[OF _ new sub Cons.prems(4)]
      Cons.IH[OF _ eq sub Cons.prems(4)]
    by (simp add: Let_def split: option.splits if_splits prod.splits sum.splits)
qed

lemma search_rows_found:
  "search_rows xs ys alo ahi cols st = Inr st' \<Longrightarrow> found_in (set (range_loop alo ahi)) C st \<Longrightarrow>
   set cols \<subseteq> C \<Longrightarrow> found_in (set (range_loop alo ahi)) C st'"
proof (induction cols arbitrary: st)
  case Nil
  then show ?case by simp
next
  case (Cons j cols)
  obtain bj where bj: "item ys j = Some bj" using Cons.prems(1) by (cases "item ys j") auto
  obtain st1 where st1: "search_row xs bj j (range_loop alo ahi)
      (st\<lparr>cruncher := setSeq2 (Str bj) (cruncher st)\<rparr>) = Inr st1"
    and rest: "search_rows xs ys alo ahi cols st1 = Inr st'"
    using Cons.prems(1) bj by (auto split: sum.splits)
  have "found_in (set (range_loop alo ahi)) C (st\<lparr>cruncher := setSeq2 (Str bj) (cruncher st)\<rparr>)"
    using Cons.prems(2) by (simp add: found_in_def)
  from search_row_found[OF st1 this subset_refl] Cons.prems(3)
  have "found_in (set (range_loop alo ahi)) C st1" by simp
  from Cons.IH[OF rest this] Cons.prems(3) show ?case by simp
qed

lemma search_start_found:
  assumes "search_rows xs ys alo ahi (range_loop blo bhi) (start_search df) = Inr st"
  shows "found_in (set (range_loop alo ahi)) (set (range_loop blo bhi)) st"
  using search_rows_found[OF assms _ subset_refl] by (simp add: found_in_def start_search_def)

lemma fancy_index:
  assumes "search_rows xs ys alo ahi (range_loop blo bhi) (start_search df) = Inr st"
    and "(x, y) = (if bestRatio st < 0.75 then (eqi st, eqj st) else (besti st, bestj st))"
    and "x = Some i" and "y = Some j"
  shows "i \<in> set (range_loop alo ahi) \<and> j \<in> set (range_loop blo bhi)"
proof -
  have f: "found_in (set (range_loop alo ahi)) (set (range_loop blo bhi)) st"
    using search_start_found[OF assms(1)] .
  have "(eqi st = Some i \<and> eqj st = Some j) \<or> (besti st = Some i \<and> bestj st = Some j)"
    using assms(2-4) by (auto split: if_splits)
  then show ?thesis using f unfolding found_in_def by blast
qed

lemma in_range_loop:
  "i \<in> set (range_loop alo ahi) \<Longrightarrow> (alo < i \<longrightarrow> i < ahi) \<and> (i + 1 < ahi \<longrightarrow> alo \<le> i)"
  by (auto simp: range_loop_def split: if_splits)

termination fancyReplace
  apply (relation "measure (\<lambda>(df, xs, alo, ahi, ys, blo, bhi). nat (ahi - alo))")
    apply simp
   apply (drule (3) fancy_index)
   apply (auto dest!: in_range_loop)[1]
  apply (drule (3) fancy_index)
  apply (auto dest!: in_range_loop)[1]
  done

section \<open>Auxiliary lemmas: the dynamic programme selects, the loops extend greedily\<close>

lemma item_in_range: "0 \<le> i \<Longrightarrow> i < int (length xs) \<Longrightarrow> item xs i = Some (xs ! nat i)"
  by (simp add: item_def)

lemma cells_window:
  "cells_before alo blo bhi ahi blo = {(r, j). blo \<le> j \<and> j < bhi \<and> alo \<le> r \<and> r < ahi}"
  by (auto simp: cells_before_def)

lemma best_inv_selected:
  assumes inv: "best_inv (run_at d xs ys alo blo) alo blo (cells_before alo blo bhi ahi blo) best"
    and dom: "\<And>k. d k \<noteq> None \<longleftrightarrow> k \<in> set ys \<and> \<not> excluded k"
    and win: "0 \<le> alo" "alo \<le> ahi" "ahi \<le> int (length xs)" "0 \<le> blo" "blo \<le> bhi" "bhi \<le> int (length ys)"
  shows "selected excluded xs ys alo ahi blo bhi best"
proof -
  obtain bi bj bs where b: "best = (bi, bj, bs)" by (cases best)
  let ?ok = "cell_ok d xs ys"
  let ?W = "cells_before alo blo bhi ahi blo"
  have I: "0 \<le> bs" "\<forall>c\<in>?W. run_at d xs ys alo blo c \<le> bs" "bs = 0 \<longrightarrow> bi = alo \<and> bj = blo"
    "bs > 0 \<longrightarrow> (bi + bs - 1, bj + bs - 1) \<in> ?W \<and> run_at d xs ys alo blo (bi + bs - 1, bj + bs - 1) = bs
       \<and> (\<forall>c\<in>?W. run_at d xs ys alo blo c = bs \<longrightarrow>
             bi + bs - 1 < fst c \<or> (bi + bs - 1 = fst c \<and> bj + bs - 1 \<le> snd c))"
    using inv unfolding b best_inv_def by auto
  have ok_match: "\<And>r j. ?ok r j \<Longrightarrow> item xs r = item ys j \<and> \<not> excluded (key_of (item ys j))"
    using dom by (auto simp: cell_ok_def)
  have match_ok: "\<And>r j. alo \<le> r \<Longrightarrow> r < ahi \<Longrightarrow> blo \<le> j \<Longrightarrow> j < bhi \<Longrightarrow> item xs r = item ys j \<Longrightarrow>
      \<not> excluded (key_of (item ys j)) \<Longrightarrow> ?ok r j"
  proof -
    fix r j assume a: "alo \<le> r" "r < ahi" "blo \<le> j" "j < bhi" "item xs r = item ys j"
      "\<not> excluded (key_of (item ys j))"
    have xr: "item xs r = Some (xs ! nat r)" using a win by (intro item_in_range) auto
    have yj: "item ys j = Some (ys ! nat j)" using a win by (intro item_in_range) auto
    have "ys ! nat j \<in> set ys" using a win by (intro nth_mem) auto
    then have "d (key_of (item ys j)) \<noteq> None" using dom a(6) yj by (simp add: key_of_def)
    then show "?ok r j" using xr a(5) by (simp add: cell_ok_def)
  qed
  have cand: "candidate excluded xs ys alo ahi blo bhi (bi, bj, bs)"
  proof (cases "bs = 0")
    case True
    then show ?thesis using I(3) win by (auto simp: candidate_def)
  next
    case False
    then have pos: "0 < bs" using I(1) by simp
    have c0: "(bi + bs - 1, bj + bs - 1) \<in> ?W" "run ?ok alo blo (bi + bs - 1) (bj + bs - 1) = bs"
      using I(4) pos by (auto simp: run_at_def)
    have com: "\<And>t. 0 \<le> t \<Longrightarrow> t < bs \<Longrightarrow>
        ?ok (bi + bs - 1 - t) (bj + bs - 1 - t) \<and> alo \<le> bi + bs - 1 - t \<and> blo \<le> bj + bs - 1 - t"
      using run_common[of _ ?ok alo blo "bi + bs - 1" "bj + bs - 1"] c0(2) by simp
    have lo: "alo \<le> bi" "blo \<le> bj" using com[of "bs - 1"] pos by auto
    have hi: "bi + bs \<le> ahi" "bj + bs \<le> bhi" using c0(1) by (auto simp: cells_window)
    have "\<And>t. 0 \<le> t \<Longrightarrow> t < bs \<Longrightarrow>
        item xs (bi + t) = item ys (bj + t) \<and> \<not> excluded (key_of (item ys (bj + t)))"
    proof -
      fix t assume t: "0 \<le> t" "t < bs"
      have "?ok (bi + bs - 1 - (bs - 1 - t)) (bj + bs - 1 - (bs - 1 - t))"
        using com[of "bs - 1 - t"] t by simp
      then have "?ok (bi + t) (bj + t)" by (simp add: algebra_simps)
      then show "item xs (bi + t) = item ys (bj + t) \<and> \<not> excluded (key_of (item ys (bj + t)))"
        by (rule ok_match)
    qed
    then show ?thesis using lo hi I(1) by (simp add: candidate_def)
  qed
  have opt: "\<And>c. candidate excluded xs ys alo ahi blo bhi c \<Longrightarrow> preferred (bi, bj, bs) c"
  proof -
    fix c assume c: "candidate excluded xs ys alo ahi blo bhi c"
    obtain i' j' k' where ce: "c = (i', j', k')" by (cases c)
    have C: "0 \<le> k'" "alo \<le> i'" "i' + k' \<le> ahi" "blo \<le> j'" "j' + k' \<le> bhi"
      "\<And>t. 0 \<le> t \<Longrightarrow> t < k' \<Longrightarrow>
         item xs (i' + t) = item ys (j' + t) \<and> \<not> excluded (key_of (item ys (j' + t)))"
      using c unfolding ce candidate_def by auto
    show "preferred (bi, bj, bs) c"
    proof (cases "k' = 0")
      case True
      then show ?thesis using I(1) I(3) C(2) C(4) unfolding ce preferred_def by auto
    next
      case False
      then have kpos: "0 < k'" using C(1) by simp
      let ?c = "(i' + k' - 1, j' + k' - 1)"
      have inW: "?c \<in> ?W" using C kpos by (auto simp: cells_window)
      have "k' \<le> run ?ok alo blo (i' + k' - 1) (j' + k' - 1)"
      proof (rule run_ge[OF C(1)])
        fix t assume t: "0 \<le> t" "t < k'"
        have m: "item xs (i' + (k' - 1 - t)) = item ys (j' + (k' - 1 - t))
            \<and> \<not> excluded (key_of (item ys (j' + (k' - 1 - t))))"
          using C(6)[of "k' - 1 - t"] t by simp
        have "?ok (i' + (k' - 1 - t)) (j' + (k' - 1 - t))"
          using m C t by (intro match_ok) auto
        then show "?ok (i' + k' - 1 - t) (j' + k' - 1 - t) \<and> alo \<le> i' + k' - 1 - t \<and> blo \<le> j' + k' - 1 - t"
          using C t by (simp add: algebra_simps)
      qed
      then have le: "k' \<le> run_at d xs ys alo blo ?c" by (simp add: run_at_def)
      have le2: "run_at d xs ys alo blo ?c \<le> bs" using I(2) inW by blast
      show ?thesis
      proof (cases "k' = bs")
        case True
        then have eq: "run_at d xs ys alo blo ?c = bs" using le le2 by simp
        have pos: "0 < bs" using kpos True by simp
        from I(4) pos have all: "\<forall>c\<in>?W. run_at d xs ys alo blo c = bs \<longrightarrow>
             bi + bs - 1 < fst c \<or> (bi + bs - 1 = fst c \<and> bj + bs - 1 \<le> snd c)" by blast
        from all inW eq
        have "bi + bs - 1 < fst ?c \<or> (bi + bs - 1 = fst ?c \<and> bj + bs - 1 \<le> snd ?c)"
          by blast
        then show ?thesis using True unfolding ce preferred_def by auto
      next
        case False
        then show ?thesis using le le2 unfolding ce preferred_def by auto
      qed
    qed
  qed
  show ?thesis unfolding b selected_def using cand opt by blast
qed

lemma longest_core_selected:
  assumes d: "b2j m = Some d" and ex: "exact_index d (elems (seq_b m))"
    and dom: "\<And>k. d k \<noteq> None \<longleftrightarrow> k \<in> set (elems (seq_b m)) \<and> \<not> excluded k"
    and win: "0 \<le> alo" "alo \<le> ahi" "ahi \<le> seq_length (seq_a m)"
             "0 \<le> blo" "blo \<le> bhi" "bhi \<le> seq_length (seq_b m)"
  shows "\<exists>core. longest_core m alo ahi blo bhi = Inr core
           \<and> selected excluded (elems (seq_a m)) (elems (seq_b m)) alo ahi blo bhi core"
proof -
  let ?xs = "elems (seq_a m)" and ?ys = "elems (seq_b m)"
  let ?st0 = "(Map.empty :: int \<rightharpoonup> int, (alo, blo, 0::int))"
  have rl: "range_loop alo ahi = [alo..ahi - 1]" using win(2) by (simp add: range_loop_def)
  have inv0: "row_inv d ?xs ?ys alo blo bhi alo ?st0"
    unfolding row_inv_def
    by (auto simp: val_def best_inv_def cells_before_def run.simps[of _ alo blo "alo - 1"])
  have items: "\<forall>i. alo \<le> i \<and> i \<le> ahi - 1 \<longrightarrow> item ?xs i \<noteq> None"
    using win by (auto simp: item_def seq_length_def)
  have inv: "row_inv d ?xs ?ys alo blo bhi (ahi - 1 + 1) (scan_rows ?xs d blo bhi [alo..ahi - 1] ?st0)"
    using scan_rows_inv[OF ex _ _ items inv0] win(2) by simp
  then have best: "best_inv (run_at d ?xs ?ys alo blo) alo blo (cells_before alo blo bhi ahi blo)
      (snd (scan_rows ?xs d blo bhi [alo..ahi - 1] ?st0))"
    by (simp add: row_inv_def)
  have sel: "selected excluded ?xs ?ys alo ahi blo bhi (snd (scan_rows ?xs d blo bhi [alo..ahi - 1] ?st0))"
    using best_inv_selected[OF best dom] win by (simp add: seq_length_def)
  show ?thesis
  proof (cases "[alo..ahi - 1]")
    case Nil
    then have "longest_core m alo ahi blo bhi = Inr (alo, blo, 0)"
      by (simp add: longest_core_def rl)
    moreover have "snd (scan_rows ?xs d blo bhi [alo..ahi - 1] ?st0) = (alo, blo, 0)"
      using Nil by simp
    ultimately show ?thesis using sel by simp
  next
    case (Cons i rows)
    then have "longest_core m alo ahi blo bhi = Inr (snd (scan_rows ?xs d blo bhi [alo..ahi - 1] ?st0))"
      using d by (simp add: longest_core_def rl)
    then show ?thesis using sel by simp
  qed
qed

lemma extend_all_greedy:
  assumes "isbjunk m = Some f"
  shows "\<exists>mid res. extend_all m alo ahi blo bhi core = Inr res
           \<and> greedy False f (elems (seq_a m)) (elems (seq_b m)) alo ahi blo bhi core mid
           \<and> greedy True f (elems (seq_a m)) (elems (seq_b m)) alo ahi blo bhi mid res"
proof -
  let ?xs = "elems (seq_a m)" and ?ys = "elems (seq_b m)"
  have step: "\<And>want blk. greedy want f ?xs ?ys alo ahi blo bhi blk
      (extend_right want f ?xs ?ys ahi bhi (extend_left want f ?xs ?ys alo blo blk))"
  proof -
    fix want and blk :: block
    obtain i j k where blk: "blk = (i, j, k)" by (cases blk)
    obtain l where l: "0 \<le> l"
        "extend_left want f ?xs ?ys alo blo (i, j, k) = (i - l, j - l, k + l)"
        "\<forall>t. 1 \<le> t \<and> t \<le> l \<longrightarrow> left_ok want f ?xs ?ys alo blo (i, j, k) t"
        "\<not> left_ok want f ?xs ?ys alo blo (i, j, k) (l + 1)"
      using extend_left_spec[of want f ?xs ?ys alo blo i j k] by blast
    obtain r where r: "0 \<le> r"
        "extend_right want f ?xs ?ys ahi bhi (i - l, j - l, k + l) = (i - l, j - l, k + l + r)"
        "\<forall>t. 0 \<le> t \<and> t < r \<longrightarrow> right_ok want f ?xs ?ys ahi bhi (i - l, j - l, k + l) t"
        "\<not> right_ok want f ?xs ?ys ahi bhi (i - l, j - l, k + l) r"
      using extend_right_spec[of want f ?xs ?ys ahi bhi "i - l" "j - l" "k + l"] by blast
    have same: "\<And>t. right_ok want f ?xs ?ys ahi bhi (i - l, j - l, k + l) t
        = right_ok want f ?xs ?ys ahi bhi (i, j, k) t"
      by (simp add: right_ok_def)
    show "greedy want f ?xs ?ys alo ahi blo bhi blk
      (extend_right want f ?xs ?ys ahi bhi (extend_left want f ?xs ?ys alo blo blk))"
      unfolding greedy_def blk l(2) r(2)
      using l(1) l(3) l(4) r(1) r(3) r(4) same by (intro exI[of _ l] exI[of _ r]) simp
  qed
  have res: "extend_all m alo ahi blo bhi core
      = Inr (extend_right True f ?xs ?ys ahi bhi (extend_left True f ?xs ?ys alo blo
               (extend_right False f ?xs ?ys ahi bhi (extend_left False f ?xs ?ys alo blo core))))"
    using assms by (simp add: extend_all_def Let_def)
  show ?thesis
    unfolding res
    using step[of False core]
      step[of True "extend_right False f ?xs ?ys ahi bhi (extend_left False f ?xs ?ys alo blo core)"]
    by blast
qed

lemma greedy_size: "greedy want f xs ys alo ahi blo bhi blk res \<Longrightarrow> snd (snd blk) \<le> snd (snd res)"
  unfolding greedy_def by auto

lemma selected_size:
  "selected ex xs ys alo ahi blo bhi core \<Longrightarrow> candidate ex xs ys alo ahi blo bhi c \<Longrightarrow>
   snd (snd c) \<le> snd (snd core)"
  unfolding selected_def preferred_def by (cases core; cases c) fastforce

section \<open>Auxiliary lemmas: indexed matchers\<close>

lemma chainB_depends:
  assumes "seq_b m = seq_b m'" "isjunk m = isjunk m'" "autojunk m = autojunk m'"
  shows "b2j (chainB m) = b2j (chainB m')" "isbjunk (chainB m) = isbjunk (chainB m')"
    "isbpopular (chainB m) = isbpopular (chainB m')"
  using assms by (simp_all add: chainB_def Let_def case_prod_beta)

lemma indexed_chainB: "indexed (chainB m)"
  unfolding indexed_def
  using chainB_depends[of "chainB m" m] by (simp add: chainB_frame)

lemma indexed_setSeq2: "\<not> strict_eq y (seq_b m) \<Longrightarrow> indexed (setSeq2 y m)"
  by (simp add: setSeq2_def indexed_chainB)

lemma indexed_setSeq1: "indexed (setSeq1 x m) = indexed m"
proof (cases "strict_eq x (seq_a m)")
  case True
  then show ?thesis by (simp add: setSeq1_def)
next
  case False
  let ?m' = "m\<lparr>seq_a := x, matchingBlocks := None, opcodes := None\<rparr>"
  have "b2j (chainB ?m') = b2j (chainB m)" "isbjunk (chainB ?m') = isbjunk (chainB m)"
    "isbpopular (chainB ?m') = isbpopular (chainB m)"
    by (rule chainB_depends; simp)+
  then show ?thesis using False by (simp add: setSeq1_def indexed_def)
qed

lemma indexed_constructed:
  assumes "y \<noteq> Str ''''"
  shows "indexed (SequenceMatcher j x (Some y) aj)"
proof -
  have "\<not> strict_eq y (Str '''')" using assms by (cases y) auto
  then show ?thesis
    unfolding SequenceMatcher_def setSeqs_def
    by (intro indexed_setSeq2) (simp add: setSeq1_def fresh_def)
qed

lemma indexed_fields:
  assumes "indexed m"
  shows "\<exists>d fj fp. b2j m = Some d \<and> isbjunk m = Some fj \<and> isbpopular m = Some fp
     \<and> exact_index d (elems (seq_b m))
     \<and> (\<forall>k. d k \<noteq> None \<longleftrightarrow> k \<in> set (elems (seq_b m)) \<and> \<not> (fj k \<or> fp k \<or> k = proto_key))
     \<and> (\<forall>k. fj k \<longleftrightarrow> k \<in> set (elems (seq_b m)) \<and> k \<noteq> proto_key \<and> (\<exists>f. isjunk m = Some f \<and> f k))"
  using chainB_index[of m] assms unfolding indexed_def by simp


section \<open>The longest match of an indexed matcher\<close>

text \<open>
  The scan finds the candidate the selection rule names, and the two extension loops
  extend it greedily; this is the fact the later sections build on.
\<close>

lemma findLongestMatch_indexed:
  assumes "indexed m"
    and "0 \<le> alo" and "alo \<le> ahi" and "ahi \<le> seq_length (seq_a m)"
    and "0 \<le> blo" and "blo \<le> bhi" and "bhi \<le> seq_length (seq_b m)"
  shows "\<exists>res fj fp. findLongestMatch m alo ahi blo bhi = Inr res
           \<and> isbjunk m = Some fj \<and> isbpopular m = Some fp
           \<and> described_match (\<lambda>k. fj k \<or> fp k \<or> k = proto_key) fj (elems (seq_a m)) (elems (seq_b m))
                alo ahi blo bhi res"
proof -
  from indexed_fields[OF assms(1)] obtain d fj fp where f:
    "b2j m = Some d" "isbjunk m = Some fj" "isbpopular m = Some fp"
    "exact_index d (elems (seq_b m))"
    and dom: "\<forall>k. d k \<noteq> None \<longleftrightarrow> k \<in> set (elems (seq_b m)) \<and> \<not> (fj k \<or> fp k \<or> k = proto_key)"
    by (elim exE conjE)
  define ex where "ex = (\<lambda>k. fj k \<or> fp k \<or> k = proto_key)"
  have f5: "\<And>k. d k \<noteq> None \<longleftrightarrow> k \<in> set (elems (seq_b m)) \<and> \<not> ex k"
    unfolding ex_def using dom by (rule spec)
  from longest_core_selected[OF f(1) f(4) f5 assms(2-7)]
  obtain core where core: "longest_core m alo ahi blo bhi = Inr core"
    "selected ex (elems (seq_a m)) (elems (seq_b m)) alo ahi blo bhi core"
    by (elim exE conjE)
  from extend_all_greedy[OF f(2), of alo ahi blo bhi core]
  obtain mid res where ext: "extend_all m alo ahi blo bhi core = Inr res"
    "greedy False fj (elems (seq_a m)) (elems (seq_b m)) alo ahi blo bhi core mid"
    "greedy True fj (elems (seq_a m)) (elems (seq_b m)) alo ahi blo bhi mid res"
    by (elim exE conjE)
  have 1: "findLongestMatch m alo ahi blo bhi = Inr res"
    using core(1) ext(1) by (simp add: findLongestMatch_def)
  have "\<exists>core mid. selected ex (elems (seq_a m)) (elems (seq_b m)) alo ahi blo bhi core
          \<and> greedy False fj (elems (seq_a m)) (elems (seq_b m)) alo ahi blo bhi core mid
          \<and> greedy True fj (elems (seq_a m)) (elems (seq_b m)) alo ahi blo bhi mid res"
    using core(2) ext(2) ext(3) by (intro exI conjI)
  then have 2: "described_match ex fj (elems (seq_a m)) (elems (seq_b m)) alo ahi blo bhi res"
    unfolding described_match_def .
  show ?thesis
    using 1 f(2) f(3) 2[unfolded ex_def] by (intro exI conjI)
qed

lemma candidate_cong:
  assumes "\<forall>k\<in>set ys. ex k = ex' k" and "0 \<le> blo" and "bhi \<le> int (length ys)"
  shows "candidate ex xs ys alo ahi blo bhi blk = candidate ex' xs ys alo ahi blo bhi blk"
proof -
  obtain i j k where blk: "blk = (i, j, k)" by (cases blk)
  have "ex (key_of (item ys (j + t))) = ex' (key_of (item ys (j + t)))"
    if "blo \<le> j" "j + k \<le> bhi" "0 \<le> t" "t < k" for t
  proof -
    have "0 \<le> j + t" "j + t < int (length ys)" using that assms(2,3) by linarith+
    then have "item ys (j + t) = Some (ys ! nat (j + t))" "ys ! nat (j + t) \<in> set ys"
      by (simp_all add: item_def)
    then show ?thesis using assms(1) by (simp add: key_of_def)
  qed
  then show ?thesis unfolding blk candidate_def by auto
qed

lemma described_match_cong:
  assumes "\<forall>k\<in>set ys. ex k = ex' k" and "0 \<le> blo" and "bhi \<le> int (length ys)"
  shows "described_match ex junk xs ys alo ahi blo bhi res
         = described_match ex' junk xs ys alo ahi blo bhi res"
  unfolding described_match_def selected_def candidate_cong[OF assms] ..

lemma findLongestMatch_plain:
  assumes "indexed m" and "proto_key \<notin> set (elems (seq_b m))"
    and "0 \<le> alo" and "alo \<le> ahi" and "ahi \<le> seq_length (seq_a m)"
    and "0 \<le> blo" and "blo \<le> bhi" and "bhi \<le> seq_length (seq_b m)"
  shows "\<exists>res fj fp. findLongestMatch m alo ahi blo bhi = Inr res
           \<and> isbjunk m = Some fj \<and> isbpopular m = Some fp
           \<and> described_match (\<lambda>k. fj k \<or> fp k) fj (elems (seq_a m)) (elems (seq_b m))
                alo ahi blo bhi res"
proof -
  from findLongestMatch_indexed[OF assms(1,3-8)]
  obtain res fj fp where r: "findLongestMatch m alo ahi blo bhi = Inr res"
    "isbjunk m = Some fj" "isbpopular m = Some fp"
    and d: "described_match (\<lambda>k. fj k \<or> fp k \<or> k = proto_key) fj (elems (seq_a m)) (elems (seq_b m))
                alo ahi blo bhi res"
    by (elim exE conjE)
  have e: "\<forall>k\<in>set (elems (seq_b m)). (fj k \<or> fp k \<or> k = proto_key) = (fj k \<or> fp k)"
    using assms(2) by auto
  have b: "bhi \<le> int (length (elems (seq_b m)))" using assms(8) by (simp add: seq_length_def)
  have "described_match (\<lambda>k. fj k \<or> fp k) fj (elems (seq_a m)) (elems (seq_b m)) alo ahi blo bhi res"
    using d unfolding described_match_cong[OF e assms(6) b] .
  then show ?thesis using r by (intro exI conjI)
qed

section \<open>The matching blocks of an indexed matcher\<close>

lemma apart_sym: "apart p q = apart q p"
  by (auto simp: apart_def)

lemma apart_inside: "apart w x \<Longrightarrow> inside s w \<Longrightarrow> apart s x"
  by (cases w; cases x; cases s) (auto simp: apart_def before_def inside_def)

lemma replace_box:
  assumes "sorted_wrt apart (A @ w # Q)" and "\<forall>s\<in>set S. inside s w" and "sorted_wrt apart S"
  shows "sorted_wrt apart (A @ S @ Q)"
proof -
  have A: "sorted_wrt apart A" and Q: "sorted_wrt apart Q"
    and Aw: "\<forall>a\<in>set A. apart a w" and AQ: "\<forall>a\<in>set A. \<forall>q\<in>set Q. apart a q"
    and wQ: "\<forall>q\<in>set Q. apart w q"
    using assms(1) by (auto simp: sorted_wrt_append)
  have SQ: "\<forall>s\<in>set S. \<forall>q\<in>set Q. apart s q"
    using wQ assms(2) apart_inside by blast
  have AS: "\<forall>a\<in>set A. \<forall>s\<in>set S. apart a s"
    using Aw assms(2) apart_inside apart_sym by blast
  show ?thesis using A Q assms(3) SQ AS AQ by (auto simp: sorted_wrt_append)
qed

lemma candidate_weaken:
  "candidate ex xs ys alo ahi blo bhi blk \<Longrightarrow> candidate (\<lambda>k. False) xs ys alo ahi blo bhi blk"
  by (cases blk) (auto simp: candidate_def)

lemma candidate_window:
  "candidate ex xs ys alo ahi blo bhi blk \<Longrightarrow> alo' \<le> alo \<Longrightarrow> ahi \<le> ahi' \<Longrightarrow> blo' \<le> blo \<Longrightarrow> bhi \<le> bhi' \<Longrightarrow>
   candidate ex xs ys alo' ahi' blo' bhi' blk"
  by (cases blk) (auto simp: candidate_def)

lemma greedy_valid:
  assumes c: "candidate (\<lambda>k. False) xs ys alo ahi blo bhi blk"
    and g: "greedy want f xs ys alo ahi blo bhi blk res"
  shows "candidate (\<lambda>k. False) xs ys alo ahi blo bhi res"
proof -
  obtain i j k where blk: "blk = (i, j, k)" by (cases blk)
  obtain l r where lr: "0 \<le> l" "0 \<le> r" "res = (i - l, j - l, k + l + r)"
    and L: "\<And>t. 1 \<le> t \<Longrightarrow> t \<le> l \<Longrightarrow> left_ok want f xs ys alo blo (i, j, k) t"
    and R: "\<And>t. 0 \<le> t \<Longrightarrow> t < r \<Longrightarrow> right_ok want f xs ys ahi bhi (i, j, k) t"
    using g unfolding greedy_def blk by auto
  have C: "0 \<le> k" "alo \<le> i" "i + k \<le> ahi" "blo \<le> j" "j + k \<le> bhi"
    "\<And>t. 0 \<le> t \<Longrightarrow> t < k \<Longrightarrow> item xs (i + t) = item ys (j + t)"
    using c unfolding blk candidate_def by auto
  have lo: "alo \<le> i - l \<and> blo \<le> j - l"
  proof (cases "l = 0")
    case True then show ?thesis using C by simp
  next
    case False
    then show ?thesis using L[of l] lr(1) by (simp add: left_ok_def)
  qed
  have hi: "i + k + r \<le> ahi \<and> j + k + r \<le> bhi"
  proof (cases "r = 0")
    case True then show ?thesis using C by simp
  next
    case False
    then show ?thesis using R[of "r - 1"] lr(2) by (simp add: right_ok_def)
  qed
  have m: "\<And>t. 0 \<le> t \<Longrightarrow> t < k + l + r \<Longrightarrow> item xs (i - l + t) = item ys (j - l + t)"
  proof -
    fix t assume t: "0 \<le> t" "t < k + l + r"
    consider "t < l" | "l \<le> t" "t < l + k" | "l + k \<le> t" by linarith
    then show "item xs (i - l + t) = item ys (j - l + t)"
    proof cases
      case 1
      have "left_ok want f xs ys alo blo (i, j, k) (l - t)" using L[of "l - t"] 1 t by simp
      then have "item xs (i - (l - t)) = item ys (j - (l - t))" by (simp add: left_ok_def)
      then show ?thesis by (simp add: algebra_simps)
    next
      case 2
      have "item xs (i + (t - l)) = item ys (j + (t - l))" using C(6)[of "t - l"] 2 by simp
      then show ?thesis by (simp add: algebra_simps)
    next
      case 3
      have "right_ok want f xs ys ahi bhi (i, j, k) (t - l - k)" using R[of "t - l - k"] 3 t by simp
      then have "item xs (i + k + (t - l - k)) = item ys (j + k + (t - l - k))" by (simp add: right_ok_def)
      then show ?thesis by (simp add: algebra_simps)
    qed
  qed
  show ?thesis unfolding lr(3) candidate_def using lr(1,2) C(1) lo hi m by (simp add: algebra_simps)
qed

lemma described_valid:
  "described_match ex junk xs ys alo ahi blo bhi res \<Longrightarrow>
   candidate (\<lambda>k. False) xs ys alo ahi blo bhi res"
proof -
  assume "described_match ex junk xs ys alo ahi blo bhi res"
  then obtain core mid where c: "candidate ex xs ys alo ahi blo bhi core"
    and g1: "greedy False junk xs ys alo ahi blo bhi core mid"
    and g2: "greedy True junk xs ys alo ahi blo bhi mid res"
    unfolding described_match_def selected_def by auto
  from greedy_valid[OF greedy_valid[OF candidate_weaken[OF c] g1] g2] show ?thesis .
qed

lemma flm_valid:
  assumes "indexed m" and "wf_window (elems (seq_a m)) (elems (seq_b m)) (alo, ahi, blo, bhi)"
  shows "\<exists>res. findLongestMatch m alo ahi blo bhi = Inr res
           \<and> candidate (\<lambda>k. False) (elems (seq_a m)) (elems (seq_b m)) alo ahi blo bhi res"
proof -
  have w: "0 \<le> alo" "alo \<le> ahi" "ahi \<le> seq_length (seq_a m)"
    "0 \<le> blo" "blo \<le> bhi" "bhi \<le> seq_length (seq_b m)"
    using assms(2) by (simp_all add: wf_window_def seq_length_def)
  from findLongestMatch_indexed[OF assms(1) w] described_valid show ?thesis by blast
qed


lemma candidate_good:
  assumes "candidate (\<lambda>k. False) xs ys alo ahi blo bhi (i, j, k)"
    and "wf_window xs ys (alo, ahi, blo, bhi)" and "k \<noteq> 0"
  shows "good_block xs ys (i, j, k)"
  using assms unfolding good_block_def wf_window_def candidate_def by auto

lemma candidate_inside:
  assumes "candidate (\<lambda>k. False) xs ys alo ahi blo bhi (i, j, k)"
  shows "inside (box_of_block (i, j, k)) (alo, ahi, blo, bhi)"
    and "inside (i + k, ahi, j + k, bhi) (alo, ahi, blo, bhi)"
    and "inside (alo, i, blo, j) (alo, ahi, blo, bhi)"
    and "apart (box_of_block (i, j, k)) (i + k, ahi, j + k, bhi)"
    and "apart (box_of_block (i, j, k)) (alo, i, blo, j)"
    and "apart (i + k, ahi, j + k, bhi) (alo, i, blo, j)"
  using assms unfolding candidate_def inside_def box_of_block_def apart_def before_def by auto

lemma candidate_windows:
  assumes "candidate (\<lambda>k. False) xs ys alo ahi blo bhi (i, j, k)"
    and "wf_window xs ys (alo, ahi, blo, bhi)"
  shows "wf_window xs ys (i + k, ahi, j + k, bhi)" and "wf_window xs ys (alo, i, blo, j)"
  using assms unfolding candidate_def wf_window_def by auto

lemma match_queue_blocks:
  "indexed m \<Longrightarrow> (\<forall>w\<in>set queue. wf_window (elems (seq_a m)) (elems (seq_b m)) w) \<Longrightarrow>
         (\<forall>b\<in>set acc. good_block (elems (seq_a m)) (elems (seq_b m)) b) \<Longrightarrow>
         sorted_wrt apart (map box_of_block acc @ queue) \<Longrightarrow>
         \<exists>found. match_queue m queue acc = Inr found
           \<and> (\<forall>b\<in>set found. good_block (elems (seq_a m)) (elems (seq_b m)) b)
           \<and> sorted_wrt apart (map box_of_block found)"
proof (induction m queue acc rule: match_queue.induct)
  case (1 m acc)
  then show ?case by simp
next
  case (2 m alo ahi blo bhi queue acc)
  let ?xs = "elems (seq_a m)" and ?ys = "elems (seq_b m)"
  have w: "wf_window ?xs ?ys (alo, ahi, blo, bhi)" using "2.prems"(2) by simp
  note ix = "2.prems"(1)
  from flm_valid[OF ix w] obtain i j k
    where f: "findLongestMatch m alo ahi blo bhi = Inr (i, j, k)"
      and c: "candidate (\<lambda>k. False) ?xs ?ys alo ahi blo bhi (i, j, k)"
    by (metis prod_cases3)
  show ?case
  proof (cases "k = 0")
    case True
    have q: "\<forall>w\<in>set queue. wf_window ?xs ?ys w" using "2.prems"(2) by simp
    have s: "sorted_wrt apart (map box_of_block acc @ queue)"
      using "2.prems"(4) by (auto simp: sorted_wrt_append)
    from "2.IH"(2)[OF f refl refl _ ix q "2.prems"(3) s] True
    show ?thesis using f by simp
  next
    case False
    define new where "new = (if i + k < ahi \<and> j + k < bhi then [(i + k, ahi, j + k, bhi)] else [])
                  @ (if alo < i \<and> blo < j then [(alo, i, blo, j)] else [])"
    have q: "\<forall>w\<in>set (new @ queue). wf_window ?xs ?ys w"
      using "2.prems"(2) candidate_windows[OF c w] by (auto simp: new_def)
    have a: "\<forall>b\<in>set (acc @ [(i, j, k)]). good_block ?xs ?ys b"
      using "2.prems"(3) candidate_good[OF c w False] by auto
    have ins: "\<forall>s\<in>set (box_of_block (i, j, k) # new). inside s (alo, ahi, blo, bhi)"
      using candidate_inside(1-3)[OF c] by (auto simp: new_def)
    have srt: "sorted_wrt apart (box_of_block (i, j, k) # new)"
      using candidate_inside(4-6)[OF c] by (auto simp: new_def)
    have s: "sorted_wrt apart (map box_of_block (acc @ [(i, j, k)]) @ new @ queue)"
      using replace_box[OF "2.prems"(4) ins srt] by simp
    from "2.IH"(1)[OF f refl refl False ix q[unfolded new_def append_assoc] a s[unfolded new_def append_assoc]] False
    show ?thesis using f by simp
  qed
qed


lemma set_insert_by [simp]: "set (insert_by cmp x ys) = insert x (set ys)"
  by (induction ys) auto

lemma sorted_wrt_insert_by_sym:
  assumes "\<And>a b. P a b \<Longrightarrow> P b a"
  shows "sorted_wrt P (insert_by cmp x ys) = ((\<forall>y\<in>set ys. P x y) \<and> sorted_wrt P ys)"
  using assms by (induction ys) auto

lemma sorted_wrt_foldl_insert_sym:
  assumes "\<And>a b. P a b \<Longrightarrow> P b a"
  shows "sorted_wrt P (foldl (\<lambda>sorted x. insert_by cmp x sorted) acc xs) = sorted_wrt P (acc @ xs)"
proof (induction xs arbitrary: acc)
  case Nil
  then show ?case by simp
next
  case (Cons x xs)
  show ?case
    unfolding foldl_Cons Cons.IH
    using assms by (auto simp: sorted_wrt_append sorted_wrt_insert_by_sym[of P, OF assms])
qed

lemma sorted_wrt_sort_by_sym:
  assumes "\<And>a b. P a b \<Longrightarrow> P b a"
  shows "sorted_wrt P (sort_by cmp xs) = sorted_wrt P xs"
  unfolding sort_by_def using sorted_wrt_foldl_insert_sym[of P cmp "[]" xs, OF assms] by simp

lemma set_foldl_insert_by:
  "set (foldl (\<lambda>sorted x. insert_by cmp x sorted) acc xs) = set acc \<union> set xs"
  by (induction xs arbitrary: acc) auto

lemma set_sort_by [simp]: "set (sort_by cmp xs) = set xs"
  by (simp add: sort_by_def set_foldl_insert_by)

lemma length_insert_by [simp]: "length (insert_by cmp x ys) = Suc (length ys)"
  by (induction ys) auto

lemma length_foldl_insert_by:
  "length (foldl (\<lambda>sorted x. insert_by cmp x sorted) acc xs) = length acc + length xs"
  by (induction xs arbitrary: acc) auto

lemma length_sort_by [simp]: "length (sort_by cmp xs) = length xs"
  by (simp add: sort_by_def length_foldl_insert_by)

lemma block_lt_iff:
  "block_lt (i, j, k) (i', j', k') = (i < i' \<or> (i = i' \<and> (j < j' \<or> (j = j' \<and> k < k'))))"
  by (auto simp: block_lt_def block_cmp_def)

lemma block_lt_trans: "block_lt x y \<Longrightarrow> block_lt y z \<Longrightarrow> block_lt x z"
  by (cases x; cases y; cases z) (auto simp: block_lt_iff)

lemma block_lt_asym: "block_lt x y \<Longrightarrow> \<not> block_lt y x"
  by (cases x; cases y) (auto simp: block_lt_iff)

lemma sorted_insert_by_block:
  "sorted_wrt (\<lambda>a b. \<not> block_lt b a) ys \<Longrightarrow>
   sorted_wrt (\<lambda>a b. \<not> block_lt b a) (insert_by block_cmp x ys)"
proof (induction ys)
  case Nil
  then show ?case by simp
next
  case (Cons y ys)
  show ?case
  proof (cases "block_cmp x y < 0")
    case True
    then have xy: "block_lt x y" by (simp add: block_lt_def)
    have "\<forall>z\<in>set ys. \<not> block_lt z x"
    proof
      fix z assume "z \<in> set ys"
      then have "\<not> block_lt z y" using Cons.prems by simp
      then show "\<not> block_lt z x" using block_lt_trans[OF _ xy] by blast
    qed
    then show ?thesis using True Cons.prems xy block_lt_asym by auto
  next
    case False
    then have "\<not> block_lt x y" by (simp add: block_lt_def)
    then show ?thesis using False Cons by auto
  qed
qed

lemma sorted_foldl_insert_by_block:
  "sorted_wrt (\<lambda>a b. \<not> block_lt b a) acc \<Longrightarrow>
   sorted_wrt (\<lambda>a b. \<not> block_lt b a) (foldl (\<lambda>sorted x. insert_by block_cmp x sorted) acc xs)"
  by (induction xs arbitrary: acc) (auto intro: sorted_insert_by_block)

lemma sorted_sort_by_block: "sorted_wrt (\<lambda>a b. \<not> block_lt b a) (sort_by block_cmp xs)"
  unfolding sort_by_def by (rule sorted_foldl_insert_by_block) simp

lemma sorted_wrt_conj:
  "sorted_wrt (\<lambda>a b. P a b \<and> Q a b) xs = (sorted_wrt P xs \<and> sorted_wrt Q xs)"
  by (induction xs) auto

lemma before_blk_iff [simp]: "before_blk (i, j, k) (i', j', k') = (i + k \<le> i' \<and> j + k \<le> j')"
  by (simp add: before_blk_def before_def box_of_block_def)

lemma sorted_blocks_chain:
  assumes g: "\<forall>b\<in>set found. good_block xs ys b"
    and a: "sorted_wrt apart (map box_of_block found)"
  shows "chain_inv xs ys (sort_by block_cmp found)"
proof -
  let ?P = "\<lambda>p q. apart (box_of_block p) (box_of_block q)"
  let ?S = "sort_by block_cmp found"
  have "sorted_wrt ?P found" using a by (simp add: sorted_wrt_map)
  then have 1: "sorted_wrt ?P ?S"
    using sorted_wrt_sort_by_sym[of ?P block_cmp found] apart_sym by blast
  have 2: "sorted_wrt (\<lambda>a b. \<not> block_lt b a) ?S" by (rule sorted_sort_by_block)
  have 3: "sorted_wrt (\<lambda>p q. ?P p q \<and> \<not> block_lt q p) ?S"
    using 1 2 by (simp add: sorted_wrt_conj)
  have "sorted_wrt before_blk ?S"
  proof (rule sorted_wrt_mono_rel[OF _ 3])
    fix p q assume p: "p \<in> set ?S" and q: "q \<in> set ?S"
      and h: "?P p q \<and> \<not> block_lt q p"
    obtain i j k where pp: "p = (i, j, k)" by (cases p)
    obtain i' j' k' where qq: "q = (i', j', k')" by (cases q)
    have "0 < k'" using g q by (auto simp: qq good_block_def)
    then show "before_blk p q"
      using h unfolding pp qq
      by (auto simp: apart_def before_def box_of_block_def block_lt_iff)
  qed
  then show ?thesis using g by (simp add: chain_inv_def)
qed


lemma good_merge:
  assumes "good_block xs ys (i, j, k)" and "good_block xs ys (i + k, j + k, k')"
  shows "good_block xs ys (i, j, k + k')"
proof -
  have a: "\<And>t. 0 \<le> t \<Longrightarrow> t < k \<Longrightarrow> item xs (i + t) = item ys (j + t)"
    and b: "\<And>t. 0 \<le> t \<Longrightarrow> t < k' \<Longrightarrow> item xs (i + k + t) = item ys (j + k + t)"
    and c: "0 < k" "0 < k'" "0 \<le> i" "0 \<le> j" "i + k + k' \<le> int (length xs)" "j + k + k' \<le> int (length ys)"
    using assms by (auto simp: good_block_def candidate_def)
  have "item xs (i + t) = item ys (j + t)" if t: "0 \<le> t" "t < k + k'" for t
  proof (cases "t < k")
    case True
    then show ?thesis using a t by simp
  next
    case False
    then show ?thesis using b[of "t - k"] t by (simp add: algebra_simps)
  qed
  then show ?thesis using c by (simp add: good_block_def candidate_def algebra_simps)
qed

lemma collapse_chain:
  "collapse cur rest acc = (acc', cur') \<Longrightarrow>
   chain_inv xs ys (acc @ pending cur @ rest) \<Longrightarrow>
   successively (\<lambda>p q. \<not> touching p q) (acc @ pending cur) \<Longrightarrow>
   (snd (snd cur) = 0 \<longrightarrow> cur = (0, 0, 0) \<and> acc = []) \<Longrightarrow>
   chain_inv xs ys (acc' @ pending cur') \<and> successively (\<lambda>p q. \<not> touching p q) (acc' @ pending cur')"
proof (induction rest arbitrary: cur acc)
  case Nil
  then show ?case by (cases cur) auto
next
  case (Cons blk rest)
  obtain i1 j1 k1 where cur: "cur = (i1, j1, k1)" by (cases cur)
  obtain i2 j2 k2 where blk: "blk = (i2, j2, k2)" by (cases blk)
  have gb: "good_block xs ys (i2, j2, k2)" using Cons.prems(2) by (simp add: chain_inv_def blk)
  then have k2: "0 < k2" by (simp add: good_block_def)
  show ?case
  proof (cases "i1 + k1 = i2 \<and> j1 + k1 = j2")
    case True
    then have step: "collapse (i1, j1, k1 + k2) rest acc = (acc', cur')"
      using Cons.prems(1) by (simp add: cur blk)
    show ?thesis
    proof (cases "k1 = 0")
      case z: True
      then have c0: "i1 = 0" "j1 = 0" "acc = []" using Cons.prems(4) by (simp_all add: cur)
      have e: "(i1, j1, k1 + k2) = (i2, j2, k2)" using True z by simp
      have 1: "chain_inv xs ys (acc @ pending (i1, j1, k1 + k2) @ rest)"
        using Cons.prems(2) k2 unfolding e by (simp add: cur blk pending_def z)
      have 2: "successively (\<lambda>p q. \<not> touching p q) (acc @ pending (i1, j1, k1 + k2))"
        using c0 by (simp add: pending_def)
      show ?thesis by (rule Cons.IH[OF step 1 2]) (use k2 z in simp)
    next
      case nz: False
      have gc: "good_block xs ys (i1, j1, k1)" using Cons.prems(2) nz by (simp add: chain_inv_def cur pending_def)
      then have k1: "0 < k1" by (simp add: good_block_def)
      have gm: "good_block xs ys (i1, j1, k1 + k2)" using good_merge[OF gc] gb True by simp
      have 1: "chain_inv xs ys (acc @ pending (i1, j1, k1 + k2) @ rest)"
        using Cons.prems(2) gm k1 k2 True
        by (auto simp: chain_inv_def cur blk pending_def sorted_wrt_append)
      have 2: "successively (\<lambda>p q. \<not> touching p q) (acc @ pending (i1, j1, k1 + k2))"
        using Cons.prems(3) k1 k2
        by (auto simp: cur pending_def successively_append_iff touching_def split: prod.splits)
      show ?thesis by (rule Cons.IH[OF step 1 2]) (use k1 k2 in simp)
    qed
  next
    case False
    then have step: "collapse (i2, j2, k2) rest (if k1 \<noteq> 0 then acc @ [(i1, j1, k1)] else acc) = (acc', cur')"
      using Cons.prems(1) by (auto simp: cur blk)
    have 1: "chain_inv xs ys ((if k1 \<noteq> 0 then acc @ [(i1, j1, k1)] else acc) @ pending (i2, j2, k2) @ rest)"
      using Cons.prems(2) k2 by (auto simp: cur blk pending_def)
    have 2: "successively (\<lambda>p q. \<not> touching p q)
               ((if k1 \<noteq> 0 then acc @ [(i1, j1, k1)] else acc) @ pending (i2, j2, k2))"
    proof (cases "k1 = 0")
      case True
      then show ?thesis using Cons.prems(4) k2 by (simp add: cur pending_def)
    next
      case nz: False
      have "successively (\<lambda>p q. \<not> touching p q) ((acc @ [(i1, j1, k1)]) @ [(i2, j2, k2)])"
        unfolding successively_append_iff[of _ "acc @ [(i1, j1, k1)]"]
        using Cons.prems(3) nz False by (simp add: cur pending_def touching_def)
      then show ?thesis using nz k2 by (simp add: pending_def)
    qed
    show ?thesis by (rule Cons.IH[OF step 1 2]) (use k2 in simp)
  qed
qed

lemma good_matching: "good_block xs ys blk \<Longrightarrow> matching_triple xs ys blk"
  by (cases blk) (auto simp: good_block_def candidate_def matching_triple_def)

lemma chain_canonical:
  assumes "chain_inv xs ys L" and "successively (\<lambda>p q. \<not> touching p q) L"
  shows "canonical xs ys (L @ [(int (length xs), int (length ys), 0)])"
proof -
  have g: "\<forall>b\<in>set L. good_block xs ys b" and s: "sorted_wrt before_blk L"
    using assms(1) by (simp_all add: chain_inv_def)
  have asc: "sorted_wrt ascending L"
  proof (rule sorted_wrt_mono_rel[OF _ s])
    fix p q assume "p \<in> set L" "q \<in> set L" "before_blk p q"
    then show "ascending p q"
      using g by (cases p; cases q) (auto simp: ascending_def good_block_def)
  qed
  have m: "\<forall>blk\<in>set L. matching_triple xs ys blk" using g good_matching by blast
  have nz: "\<forall>blk\<in>set L. snd (snd blk) \<noteq> 0" using g by (auto simp: good_block_def)
  have "matching_triple xs ys (int (length xs), int (length ys), 0)"
    by (auto simp: matching_triple_def)
  then show ?thesis using asc m nz s assms(2) by (simp add: canonical_def)
qed

lemma compute_blocks_chain:
  assumes "indexed m"
  shows "\<exists>L. compute_blocks m = Inr (L @ [(int (length (elems (seq_a m))), int (length (elems (seq_b m))), 0)])
           \<and> chain_inv (elems (seq_a m)) (elems (seq_b m)) L
           \<and> successively (\<lambda>p q. \<not> touching p q) L"
proof -
  let ?xs = "elems (seq_a m)" and ?ys = "elems (seq_b m)"
  have w: "\<forall>w\<in>set [(0, seq_length (seq_a m), 0, seq_length (seq_b m))]. wf_window ?xs ?ys w"
    by (simp add: wf_window_def seq_length_def)
  from match_queue_blocks[OF assms w, of "[]"]
  obtain found where f: "match_queue m [(0, seq_length (seq_a m), 0, seq_length (seq_b m))] [] = Inr found"
    and g: "\<forall>b\<in>set found. good_block ?xs ?ys b"
    and a: "sorted_wrt apart (map box_of_block found)"
    by auto
  obtain acc' cur' where c: "collapse (0, 0, 0) (sort_by block_cmp found) [] = (acc', cur')"
    by (cases "collapse (0, 0, 0) (sort_by block_cmp found) []")
  have ci: "chain_inv ?xs ?ys ([] @ pending (0, 0, 0) @ sort_by block_cmp found)"
    using sorted_blocks_chain[OF g a] by (simp add: pending_def)
  have "chain_inv ?xs ?ys (acc' @ pending cur') \<and> successively (\<lambda>p q. \<not> touching p q) (acc' @ pending cur')"
    by (rule collapse_chain[OF c ci]) (simp_all add: pending_def)
  moreover have "compute_blocks m = Inr ((acc' @ pending cur') @ [(int (length ?xs), int (length ?ys), 0)])"
    using f c by (cases cur') (simp add: compute_blocks_def Let_def pending_def seq_length_def)
  ultimately show ?thesis by blast
qed

lemma compute_blocks_canonical:
  assumes "indexed m"
  shows "\<exists>blocks. compute_blocks m = Inr blocks \<and> canonical (elems (seq_a m)) (elems (seq_b m)) blocks"
  using compute_blocks_chain[OF assms] chain_canonical by blast

lemma getMatchingBlocks_canonical:
  assumes "indexed m" and "matchingBlocks m = None"
  shows "\<exists>blocks. getMatchingBlocks m = Inr (blocks, m\<lparr>matchingBlocks := Some blocks\<rparr>)
           \<and> canonical (elems (seq_a m)) (elems (seq_b m)) blocks"
  using compute_blocks_canonical[OF assms(1)] assms(2) by (auto simp: getMatchingBlocks_def)

section \<open>The opcodes of an indexed matcher\<close>

lemma opcode_loop_unfold:
  "opcode_loop i j ((ai, bj, sz) # rest) answer =
     opcode_loop (ai + sz) (bj + sz) rest (answer @ block_ops i j (ai, bj, sz))"
  by (simp add: block_ops_def Let_def)

lemma opcode_loop_acc:
  "opcode_loop i j blocks answer = answer @ opcode_loop i j blocks []"
proof (induction blocks arbitrary: i j answer)
  case Nil
  then show ?case by simp
next
  case (Cons blk blocks)
  obtain ai bj sz where blk: "blk = (ai, bj, sz)" by (cases blk)
  show ?case
    unfolding blk opcode_loop_unfold
    using Cons.IH[of "ai + sz" "bj + sz" "answer @ block_ops i j (ai, bj, sz)"]
          Cons.IH[of "ai + sz" "bj + sz" "[] @ block_ops i j (ai, bj, sz)"]
    by simp
qed

lemma opcode_loop_Cons:
  "opcode_loop i j ((ai, bj, sz) # rest) [] =
     block_ops i j (ai, bj, sz) @ opcode_loop (ai + sz) (bj + sz) rest []"
  unfolding opcode_loop_unfold using opcode_loop_acc[of _ _ rest "[] @ block_ops i j (ai, bj, sz)"] by simp

lemma tiles_append:
  "tiles i j (ops @ ops') i' j' = (\<exists>a b. tiles i j ops a b \<and> tiles a b ops' i' j')"
  by (induction i j ops i' j' rule: tiles.induct) auto

lemma opcode_loop_tiling:
  "chain_inv xs ys L \<Longrightarrow> successively (\<lambda>p q. \<not> touching p q) L \<Longrightarrow>
   i \<le> int (length xs) \<Longrightarrow> j \<le> int (length ys) \<Longrightarrow>
   (L \<noteq> [] \<longrightarrow> (case hd L of (ai, bj, sz) \<Rightarrow> i \<le> ai \<and> j \<le> bj \<and> (e \<longrightarrow> \<not> (i = ai \<and> j = bj)))) \<Longrightarrow>
   ops_ok xs ys e i j (opcode_loop i j (L @ [(int (length xs), int (length ys), 0)]) [])"
proof (induction L arbitrary: i j e)
  case Nil
  then show ?case
    by (auto simp: ops_ok_def Let_def tag_ok_def equal_ok_def)
next
  case (Cons blk L)
  obtain ai bj sz where blk: "blk = (ai, bj, sz)" by (cases blk)
  have g: "good_block xs ys (ai, bj, sz)" using Cons.prems(1) by (simp add: chain_inv_def blk)
  then have sz: "0 < sz" and bnd: "ai + sz \<le> int (length xs)" "bj + sz \<le> int (length ys)"
    and mt: "\<forall>t. 0 \<le> t \<and> t < sz \<longrightarrow> item xs (ai + t) = item ys (bj + t)"
    by (auto simp: good_block_def candidate_def)
  have le: "i \<le> ai" "j \<le> bj" "e \<longrightarrow> \<not> (i = ai \<and> j = bj)" using Cons.prems(5) by (auto simp: blk)
  have c': "chain_inv xs ys L" using Cons.prems(1) by (simp add: chain_inv_def)
  have s': "successively (\<lambda>p q. \<not> touching p q) L"
    using Cons.prems(2) by (cases L) auto
  have h': "L \<noteq> [] \<longrightarrow> (case hd L of (ai', bj', sz') \<Rightarrow>
       ai + sz \<le> ai' \<and> bj + sz \<le> bj' \<and> (True \<longrightarrow> \<not> (ai + sz = ai' \<and> bj + sz = bj')))"
  proof
    assume "L \<noteq> []"
    then obtain q L' where L: "L = q # L'" by (cases L) auto
    obtain ai' bj' sz' where q: "q = (ai', bj', sz')" by (cases q)
    have "before_blk (ai, bj, sz) (ai', bj', sz')"
      using Cons.prems(1) by (simp add: chain_inv_def blk L q)
    moreover have "\<not> touching (ai, bj, sz) (ai', bj', sz')"
      using Cons.prems(2) by (simp add: blk L q)
    ultimately show "case hd L of (ai', bj', sz') \<Rightarrow>
       ai + sz \<le> ai' \<and> bj + sz \<le> bj' \<and> (True \<longrightarrow> \<not> (ai + sz = ai' \<and> bj + sz = bj'))"
      by (simp add: L q touching_def)
  qed
  define rest where "rest = opcode_loop (ai + sz) (bj + sz) (L @ [(int (length xs), int (length ys), 0)]) []"
  have IH: "ops_ok xs ys True (ai + sz) (bj + sz) rest"
    unfolding rest_def by (rule Cons.IH[OF c' s' bnd h'])
  have eq: "opcode_loop i j ((blk # L) @ [(int (length xs), int (length ys), 0)]) []
            = block_ops i j (ai, bj, sz) @ rest"
    unfolding blk rest_def append_Cons by (rule opcode_loop_Cons)
  have e1: "equal_ok xs ys (Equal, ai, ai + sz, bj, bj + sz)"
    using mt by (simp add: equal_ok_def)
  have t1: "tag_ok (Equal, ai, ai + sz, bj, bj + sz)" using sz by (simp add: tag_ok_def)
  have hd_rest: "rest \<noteq> [] \<Longrightarrow> fst (hd rest) \<noteq> Equal" using IH by (simp add: ops_ok_def)
  have succ_rest: "successively (\<lambda>p q. \<not> both_equal p q) ((Equal, ai, ai + sz, bj, bj + sz) # rest)"
    using IH hd_rest by (cases rest) (auto simp: ops_ok_def both_equal_def)
  have tl: "tiles ai bj ((Equal, ai, ai + sz, bj, bj + sz) # rest) (int (length xs)) (int (length ys))"
    using IH by (simp add: ops_ok_def)
  have all_rest: "\<forall>opc\<in>set ((Equal, ai, ai + sz, bj, bj + sz) # rest). tag_ok opc \<and> equal_ok xs ys opc"
    using IH e1 t1 by (simp add: ops_ok_def)
  consider (rep) "i < ai" "j < bj" | (del) "i < ai" "j = bj" | (ins) "i = ai" "j < bj" | (none) "i = ai" "j = bj"
    using le by linarith
  then show ?case
  proof cases
    case rep
    then have b: "block_ops i j (ai, bj, sz) = [(Replace, i, ai, j, bj), (Equal, ai, ai + sz, bj, bj + sz)]"
      using sz by (simp add: block_ops_def)
    show ?thesis unfolding eq b ops_ok_def
      using rep tl all_rest succ_rest by (simp add: tag_ok_def equal_ok_def both_equal_def)
  next
    case del
    then have b: "block_ops i j (ai, bj, sz) = [(Delete, i, ai, j, bj), (Equal, ai, ai + sz, bj, bj + sz)]"
      using sz by (simp add: block_ops_def)
    show ?thesis unfolding eq b ops_ok_def
      using del tl all_rest succ_rest by (simp add: tag_ok_def equal_ok_def both_equal_def)
  next
    case ins
    then have b: "block_ops i j (ai, bj, sz) = [(Insert, i, ai, j, bj), (Equal, ai, ai + sz, bj, bj + sz)]"
      using sz by (simp add: block_ops_def)
    show ?thesis unfolding eq b ops_ok_def
      using ins tl all_rest succ_rest by (simp add: tag_ok_def equal_ok_def both_equal_def)
  next
    case none
    then have b: "block_ops i j (ai, bj, sz) = [(Equal, ai, ai + sz, bj, bj + sz)]"
      using sz by (simp add: block_ops_def)
    have "\<not> e" using le(3) none by simp
    then show ?thesis unfolding eq b ops_ok_def
      using none tl all_rest succ_rest by simp
  qed
qed

lemma getOpcodes_tiling:
  assumes "indexed m" and "matchingBlocks m = None" and "opcodes m = None"
  shows "\<exists>ops blocks. getOpcodes m = Inr (ops, m\<lparr>matchingBlocks := Some blocks, opcodes := Some ops\<rparr>)
           \<and> tiling (elems (seq_a m)) (elems (seq_b m)) ops"
proof -
  let ?xs = "elems (seq_a m)" and ?ys = "elems (seq_b m)"
  obtain L where c: "compute_blocks m = Inr (L @ [(int (length ?xs), int (length ?ys), 0)])"
    and ch: "chain_inv ?xs ?ys L" and nt: "successively (\<lambda>p q. \<not> touching p q) L"
    using compute_blocks_chain[OF assms(1)] by blast
  have h: "L \<noteq> [] \<longrightarrow> (case hd L of (ai, bj, sz) \<Rightarrow> 0 \<le> ai \<and> 0 \<le> bj \<and> (False \<longrightarrow> \<not> (0 = ai \<and> 0 = bj)))"
  proof
    assume "L \<noteq> []"
    then have "good_block ?xs ?ys (hd L)" using ch by (simp add: chain_inv_def)
    then show "case hd L of (ai, bj, sz) \<Rightarrow> 0 \<le> ai \<and> 0 \<le> bj \<and> (False \<longrightarrow> \<not> (0 = ai \<and> 0 = bj))"
      by (cases "hd L") (simp add: good_block_def candidate_def)
  qed
  have "ops_ok ?xs ?ys False 0 0 (opcode_loop 0 0 (L @ [(int (length ?xs), int (length ?ys), 0)]) [])"
    by (rule opcode_loop_tiling[OF ch nt _ _ h]) simp_all
  then have "tiling ?xs ?ys (opcode_loop 0 0 (L @ [(int (length ?xs), int (length ?ys), 0)]) [])"
    by (simp add: ops_ok_def tiling_def)
  moreover have "getOpcodes m = Inr (opcode_loop 0 0 (L @ [(int (length ?xs), int (length ?ys), 0)]) [],
       m\<lparr>matchingBlocks := Some (L @ [(int (length ?xs), int (length ?ys), 0)]),
         opcodes := Some (opcode_loop 0 0 (L @ [(int (length ?xs), int (length ?ys), 0)]) [])\<rparr>)"
    using c assms(2,3) by (simp add: getOpcodes_def getMatchingBlocks_def Let_def)
  ultimately show ?thesis by blast
qed

section \<open>The caches of a matcher\<close>

lemma indexed_fullbcount [simp]: "indexed (m\<lparr>fullbcount := x\<rparr>) = indexed m"
  using chainB_depends[of "m\<lparr>fullbcount := x\<rparr>" m] by (simp add: indexed_def)

lemma indexed_matchingBlocks [simp]: "indexed (m\<lparr>matchingBlocks := x\<rparr>) = indexed m"
  using chainB_depends[of "m\<lparr>matchingBlocks := x\<rparr>" m] by (simp add: indexed_def)

lemma indexed_opcodes [simp]: "indexed (m\<lparr>opcodes := x\<rparr>) = indexed m"
  using chainB_depends[of "m\<lparr>opcodes := x\<rparr>" m] by (simp add: indexed_def)

lemma getMatchingBlocks_ok:
  assumes "indexed m" and "cache_ok m"
  shows "\<exists>L. getMatchingBlocks m =
              Inr (L @ [(int (length (elems (seq_a m))), int (length (elems (seq_b m))), 0)],
                   m\<lparr>matchingBlocks :=
                       Some (L @ [(int (length (elems (seq_a m))), int (length (elems (seq_b m))), 0)])\<rparr>)
           \<and> chain_inv (elems (seq_a m)) (elems (seq_b m)) L
           \<and> successively (\<lambda>p q. \<not> touching p q) L"
proof (cases "matchingBlocks m")
  case None
  then show ?thesis using compute_blocks_chain[OF assms(1)] by (auto simp: getMatchingBlocks_def)
next
  case (Some blocks)
  then obtain L where L: "blocks = L @ [(int (length (elems (seq_a m))), int (length (elems (seq_b m))), 0)]"
    "chain_inv (elems (seq_a m)) (elems (seq_b m)) L" "successively (\<lambda>p q. \<not> touching p q) L"
    using assms(2) by (auto simp: cache_ok_def)
  have "m\<lparr>matchingBlocks := Some blocks\<rparr> = m" using Some by simp
  then show ?thesis using Some L by (auto simp: getMatchingBlocks_def)
qed

lemma ratio_ok:
  assumes "indexed m" and "cruncher_ok m"
  shows "\<exists>r m'. ratio m = Inr (r, m') \<and> ratio m' = Inr (r, m') \<and> cruncher_ok m' \<and> indexed m'
           \<and> seq_a m' = seq_a m \<and> seq_b m' = seq_b m"
proof -
  have c: "cache_ok m" "opcodes m = None" using assms(2) by (simp_all add: cruncher_ok_def)
  define B where "B = (int (length (elems (seq_a m))), int (length (elems (seq_b m))), 0::int)"
  obtain L where g: "getMatchingBlocks m = Inr (L @ [B], m\<lparr>matchingBlocks := Some (L @ [B])\<rparr>)"
    and ch: "chain_inv (elems (seq_a m)) (elems (seq_b m)) L"
            "successively (\<lambda>p q. \<not> touching p q) L"
    using getMatchingBlocks_ok[OF assms(1) c(1)] unfolding B_def by blast
  let ?m' = "m\<lparr>matchingBlocks := Some (L @ [B])\<rparr>"
  have "cruncher_ok ?m'" using assms(1) c(2) ch by (simp add: cruncher_ok_def cache_ok_def B_def)
  moreover have "indexed ?m'" using assms(1) by simp
  moreover have "getMatchingBlocks ?m' = Inr (L @ [B], ?m')" by (simp add: getMatchingBlocks_def)
  ultimately show ?thesis using g by (simp add: ratio_def)
qed

lemma getOpcodes_ok:
  assumes "indexed m" and "cache_ok m" and "opcodes m = None"
  shows "\<exists>ops m'. getOpcodes m = Inr (ops, m') \<and> tiling (elems (seq_a m)) (elems (seq_b m)) ops"
proof -
  let ?xs = "elems (seq_a m)" and ?ys = "elems (seq_b m)"
  obtain L m' where c: "getMatchingBlocks m = Inr (L @ [(int (length ?xs), int (length ?ys), 0)], m')"
    and ch: "chain_inv ?xs ?ys L" and nt: "successively (\<lambda>p q. \<not> touching p q) L"
    using getMatchingBlocks_ok[OF assms(1,2)] by blast
  have h: "L \<noteq> [] \<longrightarrow> (case hd L of (ai, bj, sz) \<Rightarrow> 0 \<le> ai \<and> 0 \<le> bj \<and> (False \<longrightarrow> \<not> (0 = ai \<and> 0 = bj)))"
  proof
    assume "L \<noteq> []"
    then have "good_block ?xs ?ys (hd L)" using ch by (simp add: chain_inv_def)
    then show "case hd L of (ai, bj, sz) \<Rightarrow> 0 \<le> ai \<and> 0 \<le> bj \<and> (False \<longrightarrow> \<not> (0 = ai \<and> 0 = bj))"
      by (cases "hd L") (simp add: good_block_def candidate_def)
  qed
  have "ops_ok ?xs ?ys False 0 0 (opcode_loop 0 0 (L @ [(int (length ?xs), int (length ?ys), 0)]) [])"
    by (rule opcode_loop_tiling[OF ch nt _ _ h]) simp_all
  then have "tiling ?xs ?ys (opcode_loop 0 0 (L @ [(int (length ?xs), int (length ?ys), 0)]) [])"
    by (simp add: ops_ok_def tiling_def)
  then show ?thesis
    using c assms(3) by (simp add: getOpcodes_def Let_def)
qed

lemma cruncher_ok_start: "cruncher_ok (SequenceMatcher cj None None None)"
  by (simp add: cruncher_ok_def cache_ok_def SequenceMatcher_def setSeqs_def setSeq1_def setSeq2_def fresh_def)

lemma cruncher_setSeq2:
  assumes "cruncher_ok c"
  shows "cruncher_ok (setSeq2 (Str s) c)" and "seq_b (setSeq2 (Str s) c) = Str s"
    and "seq_a (setSeq2 (Str s) c) = seq_a c"
proof -
  show "seq_b (setSeq2 (Str s) c) = Str s"
    by (cases "seq_b c") (auto simp: setSeq2_def chainB_frame)
  show "seq_a (setSeq2 (Str s) c) = seq_a c"
    by (auto simp: setSeq2_def chainB_frame)
  show "cruncher_ok (setSeq2 (Str s) c)"
  proof (cases "strict_eq (Str s) (seq_b c)")
    case True
    then show ?thesis using assms by (simp add: setSeq2_def)
  next
    case False
    then show ?thesis
      using indexed_setSeq2[OF False]
      by (simp add: cruncher_ok_def cache_ok_def) (simp add: setSeq2_def chainB_frame)
  qed
qed

lemma cruncher_setSeq1:
  assumes "cruncher_ok c"
  shows "cruncher_ok (setSeq1 (Str s) c)" and "seq_a (setSeq1 (Str s) c) = Str s"
    and "seq_b (setSeq1 (Str s) c) = seq_b c"
proof -
  show "seq_a (setSeq1 (Str s) c) = Str s"
    by (cases "seq_a c") (auto simp: setSeq1_def)
  show b: "seq_b (setSeq1 (Str s) c) = seq_b c"
    by (auto simp: setSeq1_def)
  show "cruncher_ok (setSeq1 (Str s) c)"
  proof (cases "strict_eq (Str s) (seq_a c)")
    case True
    then show ?thesis using assms by (simp add: setSeq1_def)
  next
    case False
    have "indexed (setSeq1 (Str s) c) \<or> seq_b (setSeq1 (Str s) c) = Str ''''"
      using assms unfolding indexed_setSeq1 b by (simp add: cruncher_ok_def)
    then show ?thesis using False
      by (simp add: cruncher_ok_def cache_ok_def) (simp add: setSeq1_def)
  qed
qed

lemma cache_ok_fullbcount [simp]: "cache_ok (m\<lparr>fullbcount := x\<rparr>) = cache_ok m"
  by (simp add: cache_ok_def split: option.splits)

lemma cruncher_quickRatio:
  assumes "cruncher_ok c" and "quickRatio c = (q, c')"
  shows "cruncher_ok c'" and "seq_a c' = seq_a c" and "seq_b c' = seq_b c"
  using assms by (auto simp: quickRatio_def Let_def cruncher_ok_def)

lemma cruncher_indexed: "cruncher_ok c \<Longrightarrow> seq_b c = Str s \<Longrightarrow> s \<noteq> '''' \<Longrightarrow> indexed c"
  by (auto simp: cruncher_ok_def)

lemma realQuickRatio_empty:
  assumes "seq_b c = Str ''''" and "seq_a c = Str s" and "s \<noteq> ''''"
  shows "realQuickRatio c = 0"
  using assms by (simp add: realQuickRatio_def Let_def seq_length_def calculateRatio_def)

section \<open>The delta of the line differ\<close>

lemma search_ok_cruncher:
  "search_ok xs ys alo ahi blo bhi st \<Longrightarrow> cruncher_ok c \<Longrightarrow>
   search_ok xs ys alo ahi blo bhi (st\<lparr>cruncher := c\<rparr>)"
  by (simp add: search_ok_def)

lemma search_row_ok:
  assumes "0 \<le> alo" and "ahi \<le> int (length xs)" and "blo \<le> j" and "j < bhi"
    and "item ys j = Some bj"
  shows "set rows \<subseteq> {alo..<ahi} \<Longrightarrow> search_ok xs ys alo ahi blo bhi st \<Longrightarrow>
         seq_b (cruncher st) = Str bj \<Longrightarrow>
         \<exists>st'. search_row xs bj j rows st = Inr st' \<and> search_ok xs ys alo ahi blo bhi st'
              \<and> seq_b (cruncher st') = Str bj"
proof (induction rows arbitrary: st)
  case Nil
  then show ?case by simp
next
  case (Cons i rows)
  have i: "alo \<le> i" "i < ahi" and sub: "set rows \<subseteq> {alo..<ahi}" using Cons.prems(1) by auto
  have ai: "item xs i = Some (xs ! nat i)" using i assms(1,2) by (simp add: item_def)
  define ai where "ai = xs ! nat i"
  note ai = ai[folded ai_def]
  note IH = Cons.IH[OF sub]
  note ok = Cons.prems(2)
  have cok: "cruncher_ok (cruncher st)" and br: "0.74 \<le> bestRatio st" using ok by (simp_all add: search_ok_def)
  show ?case
  proof (cases "ai = bj")
    case True
    let ?st1 = "if eqi st = None then st\<lparr>eqi := Some i, eqj := Some j\<rparr> else st"
    have ok1: "search_ok xs ys alo ahi blo bhi ?st1"
      using ok i assms ai True by (auto simp: search_ok_def)
    have b1: "seq_b (cruncher ?st1) = Str bj" using Cons.prems(3) by simp
    from IH[OF ok1 b1] show ?thesis using ai True by simp
  next
    case False
    define c1 where "c1 = setSeq1 (Str ai) (cruncher st)"
    have c1: "cruncher_ok c1" "seq_a c1 = Str ai" "seq_b c1 = Str bj"
      using cruncher_setSeq1[OF cok, of ai] Cons.prems(3) by (simp_all add: c1_def)
    show ?thesis
    proof (cases "realQuickRatio c1 > bestRatio st")
      case rq: False
      have "\<exists>st'. search_row xs bj j rows (st\<lparr>cruncher := c1\<rparr>) = Inr st'
              \<and> search_ok xs ys alo ahi blo bhi st' \<and> seq_b (cruncher st') = Str bj"
        by (rule IH[OF search_ok_cruncher[OF ok c1(1)]]) (simp add: c1)
      then show ?thesis using ai False rq by (simp add: Let_def c1_def[symmetric])
    next
      case rq: True
      have ne: "bj \<noteq> ''''"
      proof
        assume e: "bj = ''''"
        then have "realQuickRatio c1 = 0" using realQuickRatio_empty[of c1 ai] c1 False by simp
        then show False using rq br by simp
      qed
      obtain q c2 where q: "quickRatio c1 = (q, c2)" by (cases "quickRatio c1")
      have c2: "cruncher_ok c2" "seq_b c2 = Str bj"
        using cruncher_quickRatio[OF c1(1) q] c1 by simp_all
      show ?thesis
      proof (cases "q > bestRatio st")
        case qq: False
        have "\<exists>st'. search_row xs bj j rows (st\<lparr>cruncher := c2\<rparr>) = Inr st'
                \<and> search_ok xs ys alo ahi blo bhi st' \<and> seq_b (cruncher st') = Str bj"
          by (rule IH[OF search_ok_cruncher[OF ok c2(1)]]) (simp add: c2)
        then show ?thesis using ai False rq q qq by (simp add: Let_def c1_def[symmetric])
      next
        case qq: True
        have ix: "indexed c2" using cruncher_indexed[OF c2 ne] .
        obtain r c3 where r: "ratio c2 = Inr (r, c3)" "ratio c3 = Inr (r, c3)"
          and c3: "cruncher_ok c3" "seq_b c3 = seq_b c2"
          using ratio_ok[OF ix c2(1)] by blast
        show ?thesis
        proof (cases "r > bestRatio st")
          case rr: False
          have "\<exists>st'. search_row xs bj j rows (st\<lparr>cruncher := c3\<rparr>) = Inr st'
                  \<and> search_ok xs ys alo ahi blo bhi st' \<and> seq_b (cruncher st') = Str bj"
            by (rule IH[OF search_ok_cruncher[OF ok c3(1)]]) (simp add: c3 c2)
          then show ?thesis using ai False rq q qq r rr by (simp add: Let_def c1_def[symmetric])
        next
          case rr: True
          let ?st1 = "st\<lparr>cruncher := c3, bestRatio := r, besti := Some i, bestj := Some j\<rparr>"
          have ok1: "search_ok xs ys alo ahi blo bhi ?st1"
            using ok c3(1) rr br i assms ne by (simp add: search_ok_def)
          have "\<exists>st'. search_row xs bj j rows ?st1 = Inr st'
                  \<and> search_ok xs ys alo ahi blo bhi st' \<and> seq_b (cruncher st') = Str bj"
            by (rule IH[OF ok1]) (simp add: c3 c2)
          then show ?thesis using ai False rq q qq r rr by (simp add: Let_def c1_def[symmetric])
        qed
      qed
    qed
  qed
qed

lemma search_rows_ok:
  assumes "0 \<le> alo" and "alo \<le> ahi" and "ahi \<le> int (length xs)"
    and "0 \<le> blo" and "bhi \<le> int (length ys)"
  shows "set cols \<subseteq> {blo..<bhi} \<Longrightarrow> search_ok xs ys alo ahi blo bhi st \<Longrightarrow>
         \<exists>st'. search_rows xs ys alo ahi cols st = Inr st' \<and> search_ok xs ys alo ahi blo bhi st'"
proof (induction cols arbitrary: st)
  case Nil
  then show ?case by simp
next
  case (Cons j cols)
  have j: "blo \<le> j" "j < bhi" and sub: "set cols \<subseteq> {blo..<bhi}" using Cons.prems(1) by auto
  define bj where "bj = ys ! nat j"
  have bj: "item ys j = Some bj" using j assms(4,5) by (simp add: item_def bj_def)
  have cok: "cruncher_ok (cruncher st)" using Cons.prems(2) by (simp add: search_ok_def)
  let ?st0 = "st\<lparr>cruncher := setSeq2 (Str bj) (cruncher st)\<rparr>"
  have ok0: "search_ok xs ys alo ahi blo bhi ?st0"
    using search_ok_cruncher[OF Cons.prems(2) cruncher_setSeq2(1)[OF cok]] .
  have b0: "seq_b (cruncher ?st0) = Str bj" using cruncher_setSeq2(2)[OF cok] by simp
  have rows: "set (range_loop alo ahi) \<subseteq> {alo..<ahi}" using assms(2) by (auto simp: range_loop_def)
  obtain st1 where st1: "search_row xs bj j (range_loop alo ahi) ?st0 = Inr st1"
    and ok1: "search_ok xs ys alo ahi blo bhi st1"
    using search_row_ok[OF assms(1,3) j bj rows ok0 b0] by blast
  from Cons.IH[OF sub ok1] show ?case using bj st1 by simp
qed

lemma search_start_ok: "search_ok xs ys alo ahi blo bhi (start_search df)"
  using cruncher_ok_start by (simp add: search_ok_def start_search_def)


lemma restore_keep:
  "restore delta 1 = Inr (keep ''- '' delta)" "restore delta 2 = Inr (keep ''+ '' delta)"
  by (simp_all add: restore_def keep_def)

lemma js_slice_head:
  "js_slice (a # b # r) 0 2 = [a, b]"
  "js_slice (a # b # r) 2 (int (length (a # b # r))) = r"
  by (simp_all add: js_slice_def Let_def)

lemma keep_append [simp]: "keep tag (a @ b) = keep tag a @ keep tag b"
  by (simp add: keep_def)

lemma keep_Nil [simp]: "keep tag [] = []"
  by (simp add: keep_def)

lemma keep_Cons:
  "keep tag ((a # b # r) # delta) = (if [a, b] = ''  '' \<or> [a, b] = tag then r # keep tag delta else keep tag delta)"
  by (simp add: keep_def js_slice_def Let_def)

lemma keep_map:
  "keep tag (map (\<lambda>i. a # b # f i) is) = (if [a, b] = ''  '' \<or> [a, b] = tag then map f is else [])"
  by (induction "is") (simp_all add: keep_Cons)

lemma keep_dump:
  "keep ''- '' (dump ''-'' x lo hi) = lines_of x lo hi"
  "keep ''+ '' (dump ''-'' x lo hi) = []"
  "keep ''- '' (dump ''+'' x lo hi) = []"
  "keep ''+ '' (dump ''+'' x lo hi) = lines_of x lo hi"
  "keep ''- '' (dump '' '' x lo hi) = lines_of x lo hi"
  "keep ''+ '' (dump '' '' x lo hi) = lines_of x lo hi"
  using keep_map[of _ _ _ "\<lambda>i. key_of (item x i)" "range_loop lo hi"]
  by (simp_all add: dump_def lines_of_def)

lemma lines_of_split:
  "lo \<le> mid \<Longrightarrow> mid \<le> hi \<Longrightarrow> lines_of x lo hi = lines_of x lo mid @ lines_of x mid hi"
  using upto_split1[of lo mid "hi - 1"]
  by (cases "mid = hi") (simp_all add: lines_of_def range_loop_def)

lemma lines_of_single: "lines_of x i (i + 1) = [key_of (item x i)]"
  by (simp add: lines_of_def range_loop_def)

lemma lines_of_empty [simp]: "lines_of x i i = []"
  by (simp add: lines_of_def range_loop_def)

lemma lines_of_all: "lines_of x 0 (int (length x)) = x"
proof -
  have "map (\<lambda>i. key_of (item x i)) [0..int (length x) - 1] = x"
  proof (rule nth_equalityI)
    show "length (map (\<lambda>i. key_of (item x i)) [0..int (length x) - 1]) = length x" by simp
  next
    fix n assume "n < length (map (\<lambda>i. key_of (item x i)) [0..int (length x) - 1])"
    then have n: "n < length x" by simp
    then have "[0..int (length x) - 1] ! n = int n" by (simp add: nth_upto)
    then show "map (\<lambda>i. key_of (item x i)) [0..int (length x) - 1] ! n = x ! n"
      using n by (simp add: item_def key_of_def)
  qed
  then show ?thesis by (simp add: lines_of_def range_loop_def)
qed

lemma lines_of_equal:
  assumes "\<forall>t. 0 \<le> t \<and> t < n \<longrightarrow> item x (lo + t) = item y (lo' + t)" and True: "0 \<le> n"
  shows "lines_of x lo (lo + n) = lines_of y lo' (lo' + n)"
proof -
  have "map (\<lambda>i. key_of (item x i)) [lo..lo + n - 1] = map (\<lambda>i. key_of (item y i)) [lo'..lo' + n - 1]"
  proof (rule nth_equalityI)
    show "length (map (\<lambda>i. key_of (item x i)) [lo..lo + n - 1])
          = length (map (\<lambda>i. key_of (item y i)) [lo'..lo' + n - 1])" by simp
  next
    fix k assume "k < length (map (\<lambda>i. key_of (item x i)) [lo..lo + n - 1])"
    then have k: "int k < n" by simp
    then have "[lo..lo + n - 1] ! k = lo + int k" "[lo'..lo' + n - 1] ! k = lo' + int k"
      by (simp_all add: nth_upto)
    then show "map (\<lambda>i. key_of (item x i)) [lo..lo + n - 1] ! k
               = map (\<lambda>i. key_of (item y i)) [lo'..lo' + n - 1] ! k"
      using k assms by simp
  qed
  then show ?thesis using True by (simp add: lines_of_def range_loop_def)
qed

lemma tag_loop_ok:
  "\<forall>opc\<in>set ops. tag_ok opc \<Longrightarrow> \<exists>r. tag_loop ops acc = Inr r"
proof (induction ops arbitrary: acc)
  case Nil
  then show ?case by (cases acc) simp
next
  case (Cons opc ops)
  obtain tag i1 i2 j1 j2 where opc: "opc = (tag, i1, i2, j1, j2)" by (cases opc)
  obtain atags btags where acc: "acc = (atags, btags)" by (cases acc)
  have le: "0 \<le> i2 - i1" "0 \<le> j2 - j1"
    using Cons.prems by (auto simp: opc tag_ok_def split: OpcodeName.splits)
  have IH: "\<And>acc'. \<exists>r. tag_loop ops acc' = Inr r" using Cons by simp
  show ?case
    unfolding opc acc using le IH
    by (cases tag) (simp_all add: Let_def repeat_char_def)
qed

lemma qformat_keep:
  "keep ''- '' (qformat aline bline atags btags) = [aline]"
  "keep ''+ '' (qformat aline bline atags btags) = [bline]"
  by (simp_all add: qformat_def Let_def keep_Cons)

lemma sync_pair_identical:
  assumes "item xs i = item ys j"
  shows "\<exists>mid. sync_pair c True xs i ys j = Inr mid
           \<and> keep ''- '' mid = [key_of (item xs i)] \<and> keep ''+ '' mid = [key_of (item ys j)]"
  using assms by (simp add: sync_pair_def keep_Cons)

lemma sync_pair_marked:
  assumes "cruncher_ok c" and "item xs i = Some aelt" and "item ys j = Some belt" and "belt \<noteq> []"
  shows "\<exists>mid. sync_pair c False xs i ys j = Inr mid
           \<and> keep ''- '' mid = [key_of (item xs i)] \<and> keep ''+ '' mid = [key_of (item ys j)]"
proof -
  define c' where "c' = setSeqs (Str aelt) (Str belt) c"
  have ok: "cruncher_ok c'" and b: "seq_b c' = Str belt"
    using cruncher_setSeq2[OF cruncher_setSeq1(1)[OF assms(1)]] by (simp_all add: c'_def setSeqs_def)
  have ix: "indexed c'" using cruncher_indexed[OF ok b assms(4)] .
  obtain ops m' where g: "getOpcodes c' = Inr (ops, m')"
    and t: "tiling (elems (seq_a c')) (elems (seq_b c')) ops"
    using getOpcodes_ok[OF ix] ok by (auto simp: cruncher_ok_def)
  have "\<forall>opc\<in>set ops. tag_ok opc" using t by (simp add: tiling_def)
  then obtain atags btags where tl: "tag_loop ops ([], []) = Inr (atags, btags)"
    using tag_loop_ok[of ops] by (metis prod.exhaust)
  show ?thesis
    using assms(2,3) g tl
    by (simp add: sync_pair_def c'_def[symmetric] qformat_keep key_of_def)
qed

lemma plainReplace_ok:
  assumes "alo < ahi" and "blo < bhi"
  shows "\<exists>lines. plainReplace xs alo ahi ys blo bhi = Inr lines
           \<and> keep ''- '' lines = lines_of xs alo ahi \<and> keep ''+ '' lines = lines_of ys blo bhi"
  using assms by (simp add: plainReplace_def keep_dump)

lemma side_ok:
  assumes "lo1 < hi1 \<Longrightarrow> lo2 < hi2 \<Longrightarrow>
             \<exists>lines. F = Inr lines \<and> keep ''- '' lines = lines_of xs lo1 hi1
                    \<and> keep ''+ '' lines = lines_of ys lo2 hi2"
    and "lo1 \<le> hi1" and "lo2 \<le> hi2"
  shows "\<exists>lines. (if lo1 < hi1 then (if lo2 < hi2 then F else Inr (dump ''-'' xs lo1 hi1))
                  else if lo2 < hi2 then Inr (dump ''+'' ys lo2 hi2) else Inr []) = Inr lines
           \<and> keep ''- '' lines = lines_of xs lo1 hi1 \<and> keep ''+ '' lines = lines_of ys lo2 hi2"
proof -
  consider (both) "lo1 < hi1" "lo2 < hi2" | (a) "lo1 < hi1" "lo2 = hi2"
    | (b) "lo1 = hi1" "lo2 < hi2" | (none) "lo1 = hi1" "lo2 = hi2"
    using assms(2,3) by linarith
  then show ?thesis
  proof cases
    case both
    then show ?thesis using assms(1) by simp
  next
    case a
    then show ?thesis by (simp add: keep_dump)
  next
    case b
    then show ?thesis by (simp add: keep_dump)
  next
    case none
    then show ?thesis by simp
  qed
qed

declare fancyReplace.simps [simp del]

lemma fancyReplace_restores:
  "0 \<le> alo \<Longrightarrow> alo < ahi \<Longrightarrow> ahi \<le> int (length xs) \<Longrightarrow>
   0 \<le> blo \<Longrightarrow> blo < bhi \<Longrightarrow> bhi \<le> int (length ys) \<Longrightarrow>
   \<exists>lines. fancyReplace df xs alo ahi ys blo bhi = Inr lines
     \<and> keep ''- '' lines = lines_of xs alo ahi \<and> keep ''+ '' lines = lines_of ys blo bhi"
proof (induction df xs alo ahi ys blo bhi rule: fancyReplace.induct)
  case (1 df xs alo ahi ys blo bhi)
  note b = "1.prems"
  have cols: "set (range_loop blo bhi) \<subseteq> {blo..<bhi}" using b(5) by (auto simp: range_loop_def)
  obtain st where st: "search_rows xs ys alo ahi (range_loop blo bhi) (start_search df) = Inr st"
    and ok: "search_ok xs ys alo ahi blo bhi st"
    using search_rows_ok[OF b(1) _ b(3) b(4) b(6) cols search_start_ok] b(2) by force
  define low where "low = (bestRatio st < 0.75)"
  show ?case
  proof (cases "bestRatio st < 0.75 \<and> eqi st = None")
    case True
    have "fancyReplace df xs alo ahi ys blo bhi = plainReplace xs alo ahi ys blo bhi"
      apply (subst fancyReplace.simps)
      apply (simp only: st sum.case low_def[symmetric])
      apply (simp add: True[folded low_def])
      done
    then show ?thesis using plainReplace_ok[OF b(2) b(5)] by simp
  next
    case np: False
    have "\<exists>i j. (if bestRatio st < 0.75 then (eqi st, eqj st) else (besti st, bestj st)) = (Some i, Some j)
            \<and> alo \<le> i \<and> i < ahi \<and> blo \<le> j \<and> j < bhi
            \<and> (\<exists>mid. sync_pair (cruncher st) (bestRatio st < 0.75) xs i ys j = Inr mid
                  \<and> keep ''- '' mid = [key_of (item xs i)] \<and> keep ''+ '' mid = [key_of (item ys j)])"
    proof (cases "bestRatio st < 0.75")
      case True
      then have "eqi st \<noteq> None" using np by simp
      then obtain i j where e: "eqi st = Some i" "eqj st = Some j" "alo \<le> i" "i < ahi" "blo \<le> j" "j < bhi"
        "item xs i = item ys j"
        using ok unfolding search_ok_def by blast
      show ?thesis using True e sync_pair_identical[OF e(7)] by simp
    next
      case False
      then have "0.74 < bestRatio st" by simp
      then obtain i j bj where e: "besti st = Some i" "bestj st = Some j" "alo \<le> i" "i < ahi" "blo \<le> j" "j < bhi"
        "item ys j = Some bj" "bj \<noteq> []"
        using ok unfolding search_ok_def by blast
      have ai: "item xs i = Some (xs ! nat i)" using e(3,4) b(1,3) by (simp add: item_def)
      have cok: "cruncher_ok (cruncher st)" using ok by (simp add: search_ok_def)
      show ?thesis using False e sync_pair_marked[OF cok ai e(7,8)] by simp
    qed
    then obtain i j mid where pr: "(if bestRatio st < 0.75 then (eqi st, eqj st) else (besti st, bestj st)) = (Some i, Some j)"
      and r: "alo \<le> i" "i < ahi" "blo \<le> j" "j < bhi"
      and mid: "sync_pair (cruncher st) (bestRatio st < 0.75) xs i ys j = Inr mid"
        "keep ''- '' mid = [key_of (item xs i)]" "keep ''+ '' mid = [key_of (item ys j)]"
      by blast
    have IH1: "alo < i \<Longrightarrow> blo < j \<Longrightarrow>
        \<exists>lines. fancyReplace df xs alo i ys blo j = Inr lines
          \<and> keep ''- '' lines = lines_of xs alo i \<and> keep ''+ '' lines = lines_of ys blo j"
      using "1.IH"(1)[OF st np pr[symmetric] refl refl] b r by simp
    obtain front where fr: "(if alo < i
                        then (if blo < j then fancyReplace df xs alo i ys blo j
                              else Inr (dump ''-'' xs alo i))
                        else if blo < j then Inr (dump ''+'' ys blo j) else Inr []) = Inr front"
      and kf: "keep ''- '' front = lines_of xs alo i" "keep ''+ '' front = lines_of ys blo j"
      using side_ok[of alo i blo j "fancyReplace df xs alo i ys blo j" xs ys, OF IH1 r(1) r(3)] by blast
    have IH2: "i + 1 < ahi \<Longrightarrow> j + 1 < bhi \<Longrightarrow>
        \<exists>lines. fancyReplace df xs (i + 1) ahi ys (j + 1) bhi = Inr lines
          \<and> keep ''- '' lines = lines_of xs (i + 1) ahi \<and> keep ''+ '' lines = lines_of ys (j + 1) bhi"
      using "1.IH"(2)[OF st np pr[symmetric] refl refl fr mid(1)] b r by simp
    obtain rear where bk: "(if i + 1 < ahi
                                  then (if j + 1 < bhi then fancyReplace df xs (i + 1) ahi ys (j + 1) bhi
                                        else Inr (dump ''-'' xs (i + 1) ahi))
                                  else if j + 1 < bhi then Inr (dump ''+'' ys (j + 1) bhi) else Inr []) = Inr rear"
      and kb: "keep ''- '' rear = lines_of xs (i + 1) ahi" "keep ''+ '' rear = lines_of ys (j + 1) bhi"
      using side_ok[of "i + 1" ahi "j + 1" bhi "fancyReplace df xs (i + 1) ahi ys (j + 1) bhi" xs ys, OF IH2] r
      by force
    have res: "fancyReplace df xs alo ahi ys blo bhi = Inr (front @ mid @ rear)"
      apply (subst fancyReplace.simps)
      apply (simp only: st sum.case low_def[symmetric])
      apply (simp add: np[folded low_def] pr[folded low_def] fr mid(1)[folded low_def] bk)
      done
    have ka: "lines_of xs alo ahi = lines_of xs alo i @ [key_of (item xs i)] @ lines_of xs (i + 1) ahi"
      using lines_of_split[of alo i ahi xs] lines_of_split[of i "i + 1" ahi xs] r
      by (simp add: lines_of_single)
    have kb': "lines_of ys blo bhi = lines_of ys blo j @ [key_of (item ys j)] @ lines_of ys (j + 1) bhi"
      using lines_of_split[of blo j bhi ys] lines_of_split[of j "j + 1" bhi ys] r
      by (simp add: lines_of_single)
    show ?thesis unfolding res using kf mid(2,3) kb ka kb' by simp
  qed
qed

lemma tiles_le:
  "tiles i j ops i' j' \<Longrightarrow> \<forall>opc\<in>set ops. tag_ok opc \<Longrightarrow> i \<le> i' \<and> j \<le> j'"
proof (induction i j ops i' j' rule: tiles.induct)
  case (1 i j i' j')
  then show ?case by simp
next
  case (2 i j tag i1 i2 j1 j2 ops i' j')
  have "i1 \<le> i2 \<and> j1 \<le> j2" using "2.prems"(2) by (auto simp: tag_ok_def split: OpcodeName.splits)
  then show ?case using 2 by auto
qed

lemma compare_loop_restores:
  "tiles i j ops (int (length xs)) (int (length ys)) \<Longrightarrow>
   \<forall>opc\<in>set ops. tag_ok opc \<and> equal_ok xs ys opc \<Longrightarrow> 0 \<le> i \<Longrightarrow> 0 \<le> j \<Longrightarrow>
   \<exists>new. compare_loop df xs ys ops lines = Inr (lines @ new)
     \<and> keep ''- '' new = lines_of xs i (int (length xs))
     \<and> keep ''+ '' new = lines_of ys j (int (length ys))"
proof (induction ops arbitrary: i j lines)
  case Nil
  then show ?case by simp
next
  case (Cons opc ops)
  obtain tag i1 i2 j1 j2 where opc: "opc = (tag, i1, i2, j1, j2)" by (cases opc)
  have s: "i1 = i" "j1 = j" and t: "tiles i2 j2 ops (int (length xs)) (int (length ys))"
    using Cons.prems(1) by (simp_all add: opc)
  have tg: "tag_ok (tag, i1, i2, j1, j2)" and eo: "equal_ok xs ys (tag, i1, i2, j1, j2)"
    and rest: "\<forall>opc\<in>set ops. tag_ok opc \<and> equal_ok xs ys opc"
    using Cons.prems(2) by (simp_all add: opc)
  have le: "i1 \<le> i2" "j1 \<le> j2" using tg by (auto simp: tag_ok_def split: OpcodeName.splits)
  have hi: "i2 \<le> int (length xs)" "j2 \<le> int (length ys)" using tiles_le[OF t] rest by simp_all
  have lo: "0 \<le> i1" "0 \<le> j1" using Cons.prems(3,4) s by simp_all
  have "\<exists>g. (case tag of
              Replace \<Rightarrow> fancyReplace df xs i1 i2 ys j1 j2
            | Delete \<Rightarrow> Inr (dump ''-'' xs i1 i2)
            | Insert \<Rightarrow> Inr (dump ''+'' ys j1 j2)
            | Equal \<Rightarrow> Inr (dump '' '' xs i1 i2)) = Inr g
          \<and> keep ''- '' g = lines_of xs i1 i2 \<and> keep ''+ '' g = lines_of ys j1 j2"
  proof (cases tag)
    case Insert
    then show ?thesis using tg by (simp add: tag_ok_def keep_dump)
  next
    case Delete
    then show ?thesis using tg by (simp add: tag_ok_def keep_dump)
  next
    case Replace
    then have "i1 < i2" "j1 < j2" using tg by (simp_all add: tag_ok_def)
    from fancyReplace_restores[OF lo(1) this(1) hi(1) lo(2) this(2) hi(2)]
    show ?thesis using Replace by simp
  next
    case Equal
    then have n: "i2 - i1 = j2 - j1" "0 \<le> i2 - i1" using tg by (simp_all add: tag_ok_def)
    have "\<forall>t. 0 \<le> t \<and> t < i2 - i1 \<longrightarrow> item xs (i1 + t) = item ys (j1 + t)"
      using eo Equal by (simp add: equal_ok_def)
    from lines_of_equal[OF this n(2)]
    have "lines_of xs i1 (i1 + (i2 - i1)) = lines_of ys j1 (j1 + (j2 - j1))" unfolding n(1) .
    then have "lines_of xs i1 i2 = lines_of ys j1 j2" by simp
    then show ?thesis using Equal by (simp add: keep_dump)
  qed
  then obtain g where g: "(case tag of
              Replace \<Rightarrow> fancyReplace df xs i1 i2 ys j1 j2
            | Delete \<Rightarrow> Inr (dump ''-'' xs i1 i2)
            | Insert \<Rightarrow> Inr (dump ''+'' ys j1 j2)
            | Equal \<Rightarrow> Inr (dump '' '' xs i1 i2)) = Inr g"
    and kg: "keep ''- '' g = lines_of xs i1 i2" "keep ''+ '' g = lines_of ys j1 j2"
    by blast
  obtain new where n: "compare_loop df xs ys ops (lines @ g) = Inr ((lines @ g) @ new)"
    and kn: "keep ''- '' new = lines_of xs i2 (int (length xs))"
            "keep ''+ '' new = lines_of ys j2 (int (length ys))"
    using Cons.IH[OF t rest, of "lines @ g"] lo le by force
  have "compare_loop df xs ys (opc # ops) lines = Inr (lines @ (g @ new))"
    unfolding opc using g n by simp
  moreover have "keep ''- '' (g @ new) = lines_of xs i (int (length xs))"
    using kg(1) kn(1) lines_of_split[OF le(1) hi(1), of xs] s by simp
  moreover have "keep ''+ '' (g @ new) = lines_of ys j (int (length ys))"
    using kg(2) kn(2) lines_of_split[OF le(2) hi(2), of ys] s by simp
  ultimately show ?case by blast
qed

lemma constructed_caches:
  "matchingBlocks (SequenceMatcher j (Some (Arr r xs)) (Some (Arr r' ys)) aj) = None"
  "opcodes (SequenceMatcher j (Some (Arr r xs)) (Some (Arr r' ys)) aj) = None"
  by (simp_all add: SequenceMatcher_def setSeqs_def setSeq1_def setSeq2_def chainB_frame fresh_def)

lemma compare_restores:
  "\<exists>delta. compare df xs ys = Inr delta \<and> keep ''- '' delta = xs \<and> keep ''+ '' delta = ys"
proof -
  define m where "m = SequenceMatcher (linejunk df) (Some (Arr 0 xs)) (Some (Arr 1 ys)) None"
  have ix: "indexed m" unfolding m_def by (rule indexed_constructed) simp
  have c: "cache_ok m" "opcodes m = None"
    by (simp_all add: m_def cache_ok_def constructed_caches)
  have e: "elems (seq_a m) = xs" "elems (seq_b m) = ys" by (simp_all add: m_def constructed_fields)
  obtain ops m' where g: "getOpcodes m = Inr (ops, m')" and t: "tiling xs ys ops"
    using getOpcodes_ok[OF ix c] unfolding e by blast
  have t1: "tiles 0 0 ops (int (length xs)) (int (length ys))"
    and t2: "\<forall>opc\<in>set ops. tag_ok opc \<and> equal_ok xs ys opc"
    using t by (simp_all add: tiling_def)
  obtain new where n: "compare_loop df xs ys ops [] = Inr ([] @ new)"
    and k: "keep ''- '' new = lines_of xs 0 (int (length xs))"
           "keep ''+ '' new = lines_of ys 0 (int (length ys))"
    using compare_loop_restores[OF t1 t2, of df "[]"] by auto
  have "compare df xs ys = Inr new"
    unfolding compare_def m_def[symmetric] using g n by simp
  then show ?thesis using k by (simp add: lines_of_all)
qed

lemma ndiff_restores:
  "\<exists>delta. ndiff xs ys lj cj = Inr delta \<and> restore delta 1 = Inr xs \<and> restore delta 2 = Inr ys"
  using compare_restores[of _ xs ys] by (simp add: ndiff_def restore_keep)

section \<open>The ratios of an indexed matcher\<close>

text \<open>
  \<^verbatim>\<open>quickRatio\<close> counts the common elements of the two sequences as multisets, leaving out
  the elements of the first sequence that name a member of \<^verbatim>\<open>Object.prototype\<close>, and the
  matching blocks cover a sublist of each sequence; so the three ratios lie between 0 and
  1 whenever \<^verbatim>\<open>_chainB\<close> has indexed the second sequence, and they are ordered when no
  element of the first sequence is such a name.
\<close>

lemma inherited_proto [simp]: "inherited proto_key"
  by (simp add: inherited_def proto_key_def)

lemma inherited_char [simp]: "\<not> inherited [c]"
  by (simp add: inherited_def)

lemma bump_plus1: "bump n (plus1 v) = bump (Suc n) v"
  by (cases v) simp_all

lemma bump_zero [simp]: "bump 0 v = v"
  by (cases v) simp_all

lemma bump_one [simp]: "bump (Suc 0) v = plus1 v"
  by (cases v) simp_all

lemma count_absent: "e \<notin> set l \<Longrightarrow> count (mset l) e = 0"
  by simp

lemma count_elements_gen:
  "count_elements c ys =
     (\<lambda>e. if e \<noteq> proto_key \<and> e \<in> set ys
          then Some (bump (count (mset ys) e) (read_count c e)) else c e)"
proof (induction ys arbitrary: c)
  case Nil
  then show ?case by simp
next
  case (Cons y ys)
  show ?case
  proof (cases "y = proto_key")
    case True
    then show ?thesis
      unfolding count_elements.simps Cons.IH by (auto simp: assign_def fun_eq_iff)
  next
    case False
    have r: "\<And>e. read_count (c(y \<mapsto> plus1 (read_count c y))) e
             = (if e = y then plus1 (read_count c y) else read_count c e)"
      by (simp add: read_count_def)
    show ?thesis
      unfolding count_elements.simps Cons.IH
      using False by (auto simp: assign_def fun_eq_iff r bump_plus1 count_absent)
  qed
qed

lemma count_elements_empty: "count_elements Map.empty ys = count_of ys"
  by (rule ext) (auto simp: count_elements_gen count_of_def read_count_def)

lemma read_count_of:
  "\<not> inherited e \<Longrightarrow> read_count (count_of ys) e = Count (int (count (mset ys) e))"
  "inherited e \<Longrightarrow> read_count (count_of ys) e = NotANumber"
  by (auto simp: read_count_def count_of_def)

lemma inter_add_single:
  "add_mset e A \<inter># M = (if count A e < count M e then add_mset e (A \<inter># M) else A \<inter># M)"
  by (rule multiset_eqI) auto

lemma count_countable: "\<not> inherited e \<Longrightarrow> count (mset (countable P)) e = count (mset P) e"
  by (induction P) (auto simp: countable_def)

lemma quick_scan_count:
  assumes "\<forall>e. \<not> inherited e \<longrightarrow>
             avail e = (if e \<in> set P then Some (Count (int (count (mset ys) e) - int (count (mset P) e))) else None)"
    and "\<forall>e. inherited e \<longrightarrow> avail e = None \<or> avail e = Some NotANumber"
    and "matches = int (size (mset (countable P) \<inter># mset ys))"
  shows "snd (quick_scan (count_of ys) rest (avail, matches))
         = int (size (mset (countable (P @ rest)) \<inter># mset ys))"
  using assms
proof (induction rest arbitrary: P avail matches)
  case Nil
  then show ?case by simp
next
  case (Cons e rest)
  define numb where "numb = (case avail e of
                    Some v \<Rightarrow> v
                  | None \<Rightarrow> read_count (count_of ys) e)"
  show ?case
  proof (cases "inherited e")
    case True
    have numb: "numb = NotANumber"
      using Cons.prems(2) True by (auto simp: numb_def read_count_of)
    have a: "\<forall>x. \<not> inherited x \<longrightarrow> (assign avail e (minus1 numb)) x =
             (if x \<in> set (P @ [e]) then Some (Count (int (count (mset ys) x) - int (count (mset (P @ [e])) x))) else None)"
      using Cons.prems(1) True by (auto simp: assign_def)
    have b: "\<forall>x. inherited x \<longrightarrow> (assign avail e (minus1 numb)) x = None
                 \<or> (assign avail e (minus1 numb)) x = Some NotANumber"
      using Cons.prems(2) numb by (auto simp: assign_def)
    have m: "matches = int (size (mset (countable (P @ [e])) \<inter># mset ys))"
      using Cons.prems(3) True by (simp add: countable_def)
    have "snd (quick_scan (count_of ys) rest (assign avail e (minus1 numb), matches))
          = int (size (mset (countable ((P @ [e]) @ rest)) \<inter># mset ys))"
      by (rule Cons.IH[OF a b m])
    then show ?thesis using numb by (simp add: Let_def numb_def[symmetric])
  next
    case False
    then have np: "e \<noteq> proto_key" by auto
    have z: "\<And>l. e \<notin> set l \<Longrightarrow> count (mset l) e = 0" by simp
    have numb: "numb = Count (int (count (mset ys) e) - int (count (mset P) e))"
      using Cons.prems(1) False by (auto simp: numb_def read_count_of z)
    have a: "\<forall>x. \<not> inherited x \<longrightarrow> (assign avail e (minus1 numb)) x =
             (if x \<in> set (P @ [e]) then Some (Count (int (count (mset ys) x) - int (count (mset (P @ [e])) x))) else None)"
      using Cons.prems(1) numb np by (auto simp: assign_def)
    have b: "\<forall>x. inherited x \<longrightarrow> (assign avail e (minus1 numb)) x = None
                 \<or> (assign avail e (minus1 numb)) x = Some NotANumber"
      using Cons.prems(2) False np by (auto simp: assign_def)
    have m: "(if is_positive numb then matches + 1 else matches)
             = int (size (mset (countable (P @ [e])) \<inter># mset ys))"
      using Cons.prems(3) numb False count_countable[OF False, of P]
      by (simp add: countable_def[symmetric] inter_add_single) (simp add: countable_def inter_add_single)
    have "snd (quick_scan (count_of ys) rest
                (assign avail e (minus1 numb), if is_positive numb then matches + 1 else matches))
          = int (size (mset (countable ((P @ [e]) @ rest)) \<inter># mset ys))"
      by (rule Cons.IH[OF a b m])
    then show ?thesis by (simp add: Let_def numb_def[symmetric])
  qed
qed

lemma quick_scan_matches:
  "snd (quick_scan (count_of ys) xs (Map.empty, 0)) = int (size (mset (countable xs) \<inter># mset ys))"
  using quick_scan_count[of Map.empty "[]" ys 0 xs] by (simp add: countable_def)

lemma length_lines_of: "0 \<le> k \<Longrightarrow> length (lines_of x i (i + k)) = nat k"
  by (simp add: lines_of_def range_loop_def)

lemma matched_length:
  "\<forall>b\<in>set L. good_block xs ys b \<Longrightarrow> int (length (matched xs L)) = total L"
proof (induction L)
  case Nil
  then show ?case by (simp add: matched_def total_def)
next
  case (Cons blk L)
  obtain i j k where blk: "blk = (i, j, k)" by (cases blk)
  have "0 < k" using Cons.prems by (simp add: blk good_block_def)
  then have "int (length (lines_of xs i (i + k))) = k" by (simp add: length_lines_of)
  moreover have "int (length (matched xs L)) = total L" using Cons by simp
  ultimately show ?case by (simp add: matched_def total_def blk)
qed

lemma matched_both:
  "\<forall>b\<in>set L. good_block xs ys b \<Longrightarrow> matched xs L = matched_b ys L"
proof (induction L)
  case Nil
  then show ?case by (simp add: matched_def matched_b_def)
next
  case (Cons blk L)
  obtain i j k where blk: "blk = (i, j, k)" by (cases blk)
  have g: "\<forall>t. 0 \<le> t \<and> t < k \<longrightarrow> item xs (i + t) = item ys (j + t)" "0 \<le> k"
    using Cons.prems by (auto simp: blk good_block_def candidate_def)
  have "lines_of xs i (i + k) = lines_of ys j (j + k)" using lines_of_equal[OF g] .
  moreover have "matched xs L = matched_b ys L" using Cons by simp
  ultimately show ?case by (simp add: matched_def matched_b_def blk)
qed

lemma matched_sub:
  "sorted_wrt before_blk L \<Longrightarrow> \<forall>b\<in>set L. good_block xs ys b \<Longrightarrow>
   \<forall>b\<in>set L. p \<le> fst b \<and> q \<le> fst (snd b) \<Longrightarrow>
   p \<le> int (length xs) \<Longrightarrow> q \<le> int (length ys) \<Longrightarrow>
   mset (matched xs L) \<subseteq># mset (lines_of xs p (int (length xs)))
   \<and> mset (matched_b ys L) \<subseteq># mset (lines_of ys q (int (length ys)))"
proof (induction L arbitrary: p q)
  case Nil
  then show ?case by (simp add: matched_def matched_b_def)
next
  case (Cons blk L)
  obtain i j k where blk: "blk = (i, j, k)" by (cases blk)
  have g: "0 < k" "i + k \<le> int (length xs)" "j + k \<le> int (length ys)"
    using Cons.prems(2) by (auto simp: blk good_block_def candidate_def)
  have pq: "p \<le> i" "q \<le> j" using Cons.prems(3) by (simp_all add: blk)
  have nxt: "\<forall>b\<in>set L. i + k \<le> fst b \<and> j + k \<le> fst (snd b)"
    using Cons.prems(1) by (auto simp: blk)
  have IH: "mset (matched xs L) \<subseteq># mset (lines_of xs (i + k) (int (length xs)))
          \<and> mset (matched_b ys L) \<subseteq># mset (lines_of ys (j + k) (int (length ys)))"
    using Cons.IH[OF _ _ nxt g(2,3)] Cons.prems(1,2) by simp
  have sa: "lines_of xs p (int (length xs))
            = lines_of xs p i @ lines_of xs i (i + k) @ lines_of xs (i + k) (int (length xs))"
    using lines_of_split[of p i "int (length xs)" xs] lines_of_split[of i "i + k" "int (length xs)" xs]
      pq g by simp
  have sb: "lines_of ys q (int (length ys))
            = lines_of ys q j @ lines_of ys j (j + k) @ lines_of ys (j + k) (int (length ys))"
    using lines_of_split[of q j "int (length ys)" ys] lines_of_split[of j "j + k" "int (length ys)" ys]
      pq g by simp
  have "mset (matched xs (blk # L)) \<subseteq># mset (lines_of xs p (int (length xs)))"
    unfolding sa using IH by (simp add: matched_def blk subset_mset.add_increasing)
  moreover have "mset (matched_b ys (blk # L)) \<subseteq># mset (lines_of ys q (int (length ys)))"
    unfolding sb using IH by (simp add: matched_b_def blk subset_mset.add_increasing)
  ultimately show ?case by simp
qed

lemma total_le_common:
  assumes "chain_inv xs ys L"
  shows "0 \<le> total L" and "total L \<le> int (size (mset xs \<inter># mset ys))"
proof -
  have g: "\<forall>b\<in>set L. good_block xs ys b" and s: "sorted_wrt before_blk L"
    using assms by (simp_all add: chain_inv_def)
  have lo: "\<forall>b\<in>set L. 0 \<le> fst b \<and> 0 \<le> fst (snd b)"
    using g by (auto simp: good_block_def candidate_def)
  have "mset (matched xs L) \<subseteq># mset (lines_of xs 0 (int (length xs)))
      \<and> mset (matched_b ys L) \<subseteq># mset (lines_of ys 0 (int (length ys)))"
    by (rule matched_sub[OF s g lo]) simp_all
  then have "mset (matched xs L) \<subseteq># mset xs" "mset (matched xs L) \<subseteq># mset ys"
    by (simp_all add: lines_of_all matched_both[OF g])
  then have "mset (matched xs L) \<subseteq># mset xs \<inter># mset ys" by simp
  then have "size (mset (matched xs L)) \<le> size (mset xs \<inter># mset ys)" by (rule size_mset_mono)
  then show "total L \<le> int (size (mset xs \<inter># mset ys))"
    using matched_length[OF g] by simp
  show "0 \<le> total L" using matched_length[OF g] by (metis of_nat_0_le_iff)
qed

lemma foldl_total:
  "foldl (\<lambda>matches match. matches + snd (snd match)) a L = a + total L"
  by (induction L arbitrary: a) (simp_all add: total_def)


lemma calculateRatio_mono:
  "a \<le> b \<Longrightarrow> 0 \<le> len \<Longrightarrow> calculateRatio a len \<le> calculateRatio b len"
  by (simp add: calculateRatio_def divide_right_mono)

lemma calculateRatio_bounds:
  "0 \<le> a \<Longrightarrow> 2 * a \<le> len \<Longrightarrow> 0 \<le> calculateRatio a len \<and> calculateRatio a len \<le> 1"
proof -
  assume a: "0 \<le> a" "2 * a \<le> len"
  then have "2 * real_of_int a \<le> real_of_int len" by linarith
  then show ?thesis using a by (simp add: calculateRatio_def)
qed


lemma ratio_value:
  assumes "indexed m" and "cache_ok m"
  shows "\<exists>L m'. ratio m = Inr (calculateRatio (total L) (seq_length (seq_a m) + seq_length (seq_b m)), m')
           \<and> chain_inv (elems (seq_a m)) (elems (seq_b m)) L"
proof -
  obtain L m' where g: "getMatchingBlocks m =
              Inr (L @ [(int (length (elems (seq_a m))), int (length (elems (seq_b m))), 0)], m')"
    and ch: "chain_inv (elems (seq_a m)) (elems (seq_b m)) L"
    using getMatchingBlocks_ok[OF assms] by blast
  have "total (L @ [(int (length (elems (seq_a m))), int (length (elems (seq_b m))), 0)]) = total L"
    by (simp add: total_def)
  then show ?thesis using g ch by (auto simp: ratio_def foldl_total)
qed


lemma common_le:
  "int (size (mset (countable xs) \<inter># mset ys)) \<le> min (int (length xs)) (int (length ys))"
proof -
  have "size (mset (countable xs) \<inter># mset ys) \<le> size (mset (countable xs))"
    by (rule size_mset_mono) simp
  moreover have "size (mset (countable xs)) \<le> length xs"
    unfolding countable_def size_mset by (rule length_filter_le)
  moreover have "size (mset (countable xs) \<inter># mset ys) \<le> size (mset ys)"
    by (rule size_mset_mono) simp
  ultimately show ?thesis by simp
qed

lemma quickRatio_value:
  assumes "fullbcount_ok m"
  shows "fst (quickRatio m) =
           calculateRatio (int (size (mset (countable (elems (seq_a m))) \<inter># mset (elems (seq_b m)))))
             (seq_length (seq_a m) + seq_length (seq_b m))"
proof -
  have "(case fullbcount m of
                 None \<Rightarrow> count_elements Map.empty (elems (seq_b m))
               | Some c \<Rightarrow> c) = count_of (elems (seq_b m))"
    using assms by (auto simp: fullbcount_ok_def count_elements_empty)
  then show ?thesis by (simp add: quickRatio_def Let_def quick_scan_matches)
qed

text \<open>
  The order of the three ratios, for a first sequence none of whose elements names a
  member of \<^verbatim>\<open>Object.prototype\<close>; the elements of a string never do.
\<close>

lemma ratios_ordered:
  assumes "indexed m" and "cache_ok m" and "fullbcount_ok m"
    and "\<forall>e\<in>set (elems (seq_a m)). \<not> inherited e"
  shows "\<exists>r m'. ratio m = Inr (r, m') \<and> r \<le> fst (quickRatio m)
           \<and> fst (quickRatio m) \<le> realQuickRatio m"
proof -
  let ?xs = "elems (seq_a m)" and ?ys = "elems (seq_b m)"
  let ?len = "seq_length (seq_a m) + seq_length (seq_b m)"
  obtain L m' where r: "ratio m = Inr (calculateRatio (total L) ?len, m')"
    and ch: "chain_inv ?xs ?ys L"
    using ratio_value[OF assms(1,2)] by blast
  have len: "0 \<le> ?len" by (simp add: seq_length_def)
  have cx: "countable ?xs = ?xs" using assms(4) by (simp add: countable_def)
  have 1: "calculateRatio (total L) ?len \<le> fst (quickRatio m)"
    unfolding quickRatio_value[OF assms(3)] cx
    by (rule calculateRatio_mono[OF total_le_common(2)[OF ch] len])
  have 2: "fst (quickRatio m) \<le> realQuickRatio m"
    unfolding quickRatio_value[OF assms(3)] realQuickRatio_def Let_def
    using calculateRatio_mono[OF common_le[of ?xs ?ys] len] by (simp add: seq_length_def)
  show ?thesis using r 1 2 by blast
qed

lemma ratios_bounded:
  assumes "indexed m" and "cache_ok m" and "fullbcount_ok m"
  shows "\<exists>r m'. ratio m = Inr (r, m') \<and> 0 \<le> r \<and> r \<le> 1"
    and "0 \<le> fst (quickRatio m) \<and> fst (quickRatio m) \<le> 1"
    and "0 \<le> realQuickRatio m \<and> realQuickRatio m \<le> 1"
proof -
  let ?xs = "elems (seq_a m)" and ?ys = "elems (seq_b m)"
  let ?len = "seq_length (seq_a m) + seq_length (seq_b m)"
  let ?c = "int (size (mset (countable ?xs) \<inter># mset ?ys))"
  let ?c' = "int (size (mset ?xs \<inter># mset ?ys))"
  obtain L m' where r: "ratio m = Inr (calculateRatio (total L) ?len, m')"
    and ch: "chain_inv ?xs ?ys L"
    using ratio_value[OF assms(1,2)] by blast
  have c: "2 * ?c \<le> ?len" using common_le[of ?xs ?ys] by (simp add: seq_length_def)
  have "size (mset ?xs \<inter># mset ?ys) \<le> size (mset ?xs)" by (rule size_mset_mono) simp
  moreover have "size (mset ?xs \<inter># mset ?ys) \<le> size (mset ?ys)" by (rule size_mset_mono) simp
  ultimately have c': "2 * ?c' \<le> ?len" by (simp add: seq_length_def)
  have t: "0 \<le> total L" "2 * total L \<le> ?len"
    using total_le_common[OF ch] c' by simp_all
  show "\<exists>r m'. ratio m = Inr (r, m') \<and> 0 \<le> r \<and> r \<le> 1"
    using r calculateRatio_bounds[OF t] by blast
  show "0 \<le> fst (quickRatio m) \<and> fst (quickRatio m) \<le> 1"
    unfolding quickRatio_value[OF assms(3)] by (rule calculateRatio_bounds[OF _ c]) simp
  show "0 \<le> realQuickRatio m \<and> realQuickRatio m \<le> 1"
    unfolding realQuickRatio_def Let_def
    by (rule calculateRatio_bounds) (simp_all add: seq_length_def)
qed

lemma ratios_of_empty:
  assumes "indexed m" and "cache_ok m" and "elems (seq_a m) = []" and "elems (seq_b m) = []"
  shows "\<exists>m'. ratio m = Inr (1, m')" and "fst (quickRatio m) = 1" and "realQuickRatio m = 1"
proof -
  show "\<exists>m'. ratio m = Inr (1, m')"
    using ratio_value[OF assms(1,2)] assms(3,4) by (auto simp: calculateRatio_def seq_length_def)
  show "fst (quickRatio m) = 1"
    using assms(3,4) by (simp add: quickRatio_def Let_def calculateRatio_def seq_length_def)
  show "realQuickRatio m = 1"
    using assms(3,4) by (simp add: realQuickRatio_def Let_def calculateRatio_def seq_length_def)
qed

section \<open>Matchers as the constructor leaves them, and the close matches\<close>

text \<open>
  What the sections above give for a matcher right after its construction on a second
  sequence other than the empty string, and for \<^verbatim>\<open>getCloseMatches\<close> on a word other than the
  empty string; and what the constructor leaves on the empty string.
\<close>

lemma close_loop_ok:
  "cruncher_ok s \<Longrightarrow> seq_b s = Str word \<Longrightarrow> word \<noteq> [] \<Longrightarrow>
   \<exists>result'. close_loop cutoff s possibilities result = Inr result'"
proof (induction possibilities arbitrary: s result)
  case Nil
  then show ?case by simp
next
  case (Cons x rest)
  define s1 where "s1 = setSeq1 (Str x) s"
  have s1: "cruncher_ok s1" "seq_b s1 = Str word"
    using cruncher_setSeq1[OF Cons.prems(1), of x] Cons.prems(2) by (simp_all add: s1_def)
  obtain q s2 where q: "quickRatio s1 = (q, s2)" by (cases "quickRatio s1")
  have s2: "cruncher_ok s2" "seq_b s2 = Str word"
    using cruncher_quickRatio[OF s1(1) q] s1(2) by simp_all
  obtain r s3 where r: "ratio s2 = Inr (r, s3)" "ratio s3 = Inr (r, s3)"
    and s3: "cruncher_ok s3" "seq_b s3 = seq_b s2"
    using ratio_ok[OF cruncher_indexed[OF s2 Cons.prems(3)] s2(1)] by blast
  note IH = Cons.IH[OF _ _ Cons.prems(3)]
  have 1: "\<exists>result'. close_loop cutoff s1 rest result = Inr result'" using IH[OF s1] .
  have 2: "\<exists>result'. close_loop cutoff s2 rest result = Inr result'" using IH[OF s2] .
  have 3: "\<exists>result'. close_loop cutoff s3 rest result = Inr result'"
    using IH[OF s3(1)] s3(2) s2(2) by simp
  have 4: "\<exists>result'. close_loop cutoff s3 rest (result @ [(r, x)]) = Inr result'"
    using IH[OF s3(1)] s3(2) s2(2) by simp
  show ?case
    using 1 2 3 4 q r by (simp add: Let_def s1_def[symmetric])
qed

lemma getCloseMatches_guard:
  "n \<le> 0 \<Longrightarrow> getCloseMatches word possibilities (Some n) cutoff0 = Inl (NMustBePositive n)"
  "0 < n \<Longrightarrow> cutoff < 0 \<or> 1 < cutoff \<Longrightarrow>
     getCloseMatches word possibilities (Some n) (Some cutoff) = Inl (CutoffOutOfRange cutoff)"
  by (auto simp: getCloseMatches_def Let_def)

lemma getCloseMatches_returns:
  assumes "0 < n" and "0 \<le> cutoff" and "cutoff \<le> 1" and "word \<noteq> []"
  shows "\<exists>result. getCloseMatches word possibilities (Some n) (Some cutoff) = Inr result"
proof -
  define s where "s = setSeq2 (Str word) (SequenceMatcher None None None None)"
  have s: "cruncher_ok s" "seq_b s = Str word"
    using cruncher_setSeq2[OF cruncher_ok_start, of word None] by (simp_all add: s_def)
  obtain result where "close_loop cutoff s possibilities [] = Inr result"
    using close_loop_ok[OF s assms(4)] by blast
  then show ?thesis using assms(1-3) by (simp add: getCloseMatches_def Let_def s_def[symmetric])
qed

lemma restore_throws_iff:
  "(\<exists>e. restore delta which = Inl e) = (which \<noteq> 1 \<and> which \<noteq> 2)"
  by (simp add: restore_def)

lemma constructed_usable:
  assumes "y \<noteq> Str []"
  shows "indexed (SequenceMatcher j (Some x) (Some y) aj)"
    and "matchingBlocks (SequenceMatcher j (Some x) (Some y) aj) = None"
    and "opcodes (SequenceMatcher j (Some x) (Some y) aj) = None"
    and "cache_ok (SequenceMatcher j (Some x) (Some y) aj)"
    and "fullbcount_ok (SequenceMatcher j (Some x) (Some y) aj)"
proof -
  have ne: "\<not> strict_eq y (Str [])" using assms by (cases y) auto
  show "indexed (SequenceMatcher j (Some x) (Some y) aj)" by (rule indexed_constructed[OF assms])
  show mb: "matchingBlocks (SequenceMatcher j (Some x) (Some y) aj) = None"
    using ne by (simp add: SequenceMatcher_def setSeqs_def setSeq1_def setSeq2_def chainB_frame fresh_def)
  show "opcodes (SequenceMatcher j (Some x) (Some y) aj) = None"
    using ne by (simp add: SequenceMatcher_def setSeqs_def setSeq1_def setSeq2_def chainB_frame fresh_def)
  show "cache_ok (SequenceMatcher j (Some x) (Some y) aj)" using mb by (simp add: cache_ok_def)
  show "fullbcount_ok (SequenceMatcher j (Some x) (Some y) aj)"
    using ne by (simp add: fullbcount_ok_def SequenceMatcher_def setSeqs_def setSeq1_def setSeq2_def
        chainB_frame fresh_def)
qed

lemma constructed_blocks:
  assumes "y \<noteq> Str []"
  shows "\<exists>blocks m'. getMatchingBlocks (SequenceMatcher j (Some x) (Some y) aj) = Inr (blocks, m')
           \<and> canonical (elems x) (elems y) blocks"
  using getMatchingBlocks_canonical[OF constructed_usable(1,2)[OF assms], of j x aj]
  by (auto simp: constructed_fields)

lemma constructed_opcodes:
  assumes "y \<noteq> Str []"
  shows "\<exists>ops m'. getOpcodes (SequenceMatcher j (Some x) (Some y) aj) = Inr (ops, m')
           \<and> tiling (elems x) (elems y) ops"
  using getOpcodes_ok[OF constructed_usable(1,4,3)[OF assms], of j x aj]
  by (simp add: constructed_fields)

lemma constructed_ratios:
  assumes "y \<noteq> Str []" and "\<forall>e\<in>set (elems x). \<not> inherited e"
  shows "\<exists>r m'. ratio (SequenceMatcher j (Some x) (Some y) aj) = Inr (r, m')
           \<and> 0 \<le> r \<and> r \<le> fst (quickRatio (SequenceMatcher j (Some x) (Some y) aj))
           \<and> fst (quickRatio (SequenceMatcher j (Some x) (Some y) aj))
                \<le> realQuickRatio (SequenceMatcher j (Some x) (Some y) aj)
           \<and> realQuickRatio (SequenceMatcher j (Some x) (Some y) aj) \<le> 1"
proof -
  let ?m = "SequenceMatcher j (Some x) (Some y) aj"
  note u = constructed_usable[OF assms(1), of j x aj]
  have a: "\<forall>e\<in>set (elems (seq_a ?m)). \<not> inherited e"
    using assms(2) by (simp add: constructed_fields)
  obtain r m' where r: "ratio ?m = Inr (r, m')" "r \<le> fst (quickRatio ?m)"
    "fst (quickRatio ?m) \<le> realQuickRatio ?m"
    using ratios_ordered[OF u(1,4,5) a] by blast
  obtain r' m'' where r': "ratio ?m = Inr (r', m'')" "0 \<le> r'"
    using ratios_bounded(1)[OF u(1,4,5)] by blast
  have "0 \<le> r" using r(1) r' by simp
  then show ?thesis using r ratios_bounded(3)[OF u(1,4,5)] by blast
qed

lemma constructed_ratios_of_strings:
  assumes "t \<noteq> []"
  shows "\<exists>r m'. ratio (SequenceMatcher j (Some (Str s)) (Some (Str t)) aj) = Inr (r, m')
           \<and> 0 \<le> r \<and> r \<le> fst (quickRatio (SequenceMatcher j (Some (Str s)) (Some (Str t)) aj))
           \<and> fst (quickRatio (SequenceMatcher j (Some (Str s)) (Some (Str t)) aj))
                \<le> realQuickRatio (SequenceMatcher j (Some (Str s)) (Some (Str t)) aj)
           \<and> realQuickRatio (SequenceMatcher j (Some (Str s)) (Some (Str t)) aj) \<le> 1"
  by (rule constructed_ratios) (use assms in auto)

text \<open>
  Two sequences of lines that hold a name of \<^verbatim>\<open>Object.prototype\<close>. \<^verbatim>\<open>quickRatio\<close> reads
  \<^verbatim>\<open>fullbcount[elt]\<close> without \<^verbatim>\<open>_has\<close> and counts no match for the line \<^verbatim>\<open>constructor\<close>, so it is
  below \<^verbatim>\<open>ratio\<close>; and the line \<^verbatim>\<open>__proto__\<close> is no key of \<open>b2j\<close>, so the longest match of the
  second pair is the one of \<^verbatim>\<open>x\<close>.
\<close>

lemma quickRatio_inherited_name:
  "fst (quickRatio (SequenceMatcher None (Some (Arr 0 [''constructor''])) (Some (Arr 1 [''constructor''])) None)) = 0"
  "map_sum id fst (ratio (SequenceMatcher None (Some (Arr 0 [''constructor''])) (Some (Arr 1 [''constructor''])) None))
     = Inr 1"
  by code_simp+

lemma findLongestMatch_proto_key:
  "findLongestMatch
     (SequenceMatcher None (Some (Arr 0 [''__proto__'', ''__proto__'', ''x'']))
        (Some (Arr 1 [''x'', ''__proto__'', ''__proto__''])) None) 0 3 0 3 = Inr (2, 0, 1)"
  by code_simp

lemma empty_second_string_throws:
  assumes "elems x \<noteq> []"
  shows "getMatchingBlocks (SequenceMatcher j (Some x) (Some (Str [])) aj) = Inl TypeError"
proof -
  let ?m = "SequenceMatcher j (Some x) (Some (Str [])) aj"
  have a: "seq_a ?m = x" by (simp add: constructed_fields)
  have mb: "matchingBlocks ?m = None"
    by (cases x) (simp_all add: SequenceMatcher_def setSeqs_def setSeq1_def setSeq2_def fresh_def)
  have "0 < seq_length (seq_a ?m)" using assms a by (simp add: seq_length_def)
  then obtain rows where rl: "range_loop 0 (seq_length (seq_a ?m)) = 0 # rows"
    by (simp add: range_loop_def upto.simps)
  have "findLongestMatch ?m 0 (seq_length (seq_a ?m)) 0 (seq_length (seq_b ?m)) = Inl TypeError"
    by (simp add: findLongestMatch_def longest_core_def rl constructed_on_empty_string)
  then show ?thesis using mb by (simp add: getMatchingBlocks_def compute_blocks_def Let_def)
qed

text \<open>Whatever the groups, the loop of \<^verbatim>\<open>contextDiff\<close> emits for the first of them only.\<close>

lemma context_loop_started:
  "context_loop xs ys header term True lines groups = Inr lines"
  by (induction groups) simp_all

lemma context_loop_first_only:
  "context_loop xs ys header term False lines (grp # rest) =
     (case context_body xs ys term grp of
        Inl e \<Rightarrow> Inl e
      | Inr body \<Rightarrow> Inr (lines @ header @ body))"
  by (simp add: context_loop_started split: sum.splits)

section \<open>The longest match\<close>

text \<open>
  C2, as the code has it. For every indexed matcher whose second sequence holds no
  element \<^verbatim>\<open>__proto__\<close> and windows \<open>0 \<le> alo \<le> ahi \<le> len(A)\<close>, \<open>0 \<le> blo \<le> bhi \<le> len(B)\<close>,
  \<open>findLongestMatch\<close> returns the triple obtained from the candidate that maximizes \<open>k\<close>,
  then minimizes \<open>i\<close>, then \<open>j\<close>, among the matching triples inside the windows none of
  whose elements of the second sequence is junk or popular (\<open>isbjunk\<close> or \<open>isbpopular\<close>), by
  extending it on both ends, first through equal elements that are not junk, then
  through equal elements that are junk. (With an element \<^verbatim>\<open>__proto__\<close>, which never is a key
  of \<open>b2j\<close>, that element is excluded from the candidates as well:
  \<open>findLongestMatch_indexed\<close>.)
\<close>

theorem findLongestMatch_described:
  assumes "indexed m" and "proto_key \<notin> set (elems (seq_b m))"
    and "0 \<le> alo" and "alo \<le> ahi" and "ahi \<le> seq_length (seq_a m)"
    and "0 \<le> blo" and "blo \<le> bhi" and "bhi \<le> seq_length (seq_b m)"
  shows "\<exists>res fj fp. findLongestMatch m alo ahi blo bhi = Inr res
           \<and> isbjunk m = Some fj \<and> isbpopular m = Some fp
           \<and> described_match (\<lambda>k. fj k \<or> fp k) fj (elems (seq_a m)) (elems (seq_b m))
                alo ahi blo bhi res"
  using findLongestMatch_plain[OF assms] .

lemma space_example_eval: "findLongestMatch space_example 0 5 0 9 = Inr (1, 0, 4)"
  by code_simp

theorem findLongestMatch_described_witness:
  "indexed space_example \<and> proto_key \<notin> set (elems (seq_b space_example))
   \<and> (0::int) \<le> 0 \<and> (0::int) \<le> 5 \<and> 5 \<le> seq_length (seq_a space_example)
   \<and> (0::int) \<le> 0 \<and> (0::int) \<le> 9 \<and> 9 \<le> seq_length (seq_b space_example)
   \<and> (\<exists>res fj fp. findLongestMatch space_example 0 5 0 9 = Inr res
         \<and> isbjunk space_example = Some fj \<and> isbpopular space_example = Some fp
         \<and> described_match (\<lambda>k. fj k \<or> fp k) fj (elems (seq_a space_example))
              (elems (seq_b space_example)) 0 5 0 9 res)
   \<and> findLongestMatch space_example 0 5 0 9 = Inr (1, 0, 4)"
proof -
  have h1: "indexed space_example" unfolding space_example_def by (rule indexed_constructed) simp
  have h0: "proto_key \<notin> set (elems (seq_b space_example))"
    by (auto simp: space_example_def constructed_fields proto_key_def)
  have h2: "(0::int) \<le> 0" "(0::int) \<le> 5" "5 \<le> seq_length (seq_a space_example)"
    "(0::int) \<le> 9" "9 \<le> seq_length (seq_b space_example)"
    by (simp_all add: space_example_def constructed_fields seq_length_def)
  show ?thesis
    using findLongestMatch_described[OF h1 h0 h2(1) h2(2) h2(3) h2(1) h2(4) h2(5)] h1 h0 h2
      space_example_eval
    by simp
qed

text \<open>
  The claim as the specification words it excludes junk elements only. In
  \<open>popular_example\<close> no element is junk (there is no junk predicate) and \<open>x\<close> is popular.
  Among the junk-free candidates in the windows \<open>(0, 1, 2)\<close>, the match of \<open>xx\<close>, has two
  elements, and an extension never shrinks a triple; the code returns \<open>(2, 0, 1)\<close>, the
  match of \<open>a\<close>, of one element.
\<close>

lemma popular_example_eval: "findLongestMatch popular_example 0 3 0 200 = Inr (2, 0, 1)"
  by code_simp

theorem findLongestMatch_popular_counterexample:
  "isjunk popular_example = None
   \<and> findLongestMatch popular_example 0 3 0 200 = Inr (2, 0, 1)
   \<and> candidate (\<lambda>k. False) (elems (seq_a popular_example)) (elems (seq_b popular_example))
        0 3 0 200 (0, 1, 2)
   \<and> \<not> described_match (\<lambda>k. False) (\<lambda>k. False) (elems (seq_a popular_example))
          (elems (seq_b popular_example)) 0 3 0 200 (2, 0, 1)"
proof -
  let ?xs = "elems (seq_a popular_example)" and ?ys = "elems (seq_b popular_example)"
  have j: "isjunk popular_example = None" by (simp add: popular_example_def constructed_fields)
  have xs: "?xs = [''x'', ''x'', ''a'']" by (simp add: popular_example_def constructed_fields)
  have ys: "?ys = ''a'' # replicate 199 ''x''" by (simp add: popular_example_def constructed_fields)
  have "\<And>t. 0 \<le> t \<Longrightarrow> t < (2::int) \<Longrightarrow> item ?xs (0 + t) = item ?ys (1 + t)"
  proof -
    fix t :: int assume "0 \<le> t" "t < 2"
    then have "t = 0 \<or> t = 1" by auto
    then show "item ?xs (0 + t) = item ?ys (1 + t)"
      unfolding xs ys by (auto simp: item_def)
  qed
  then have c: "candidate (\<lambda>k. False) ?xs ?ys 0 3 0 200 (0, 1, 2)"
    by (simp add: candidate_def)
  have n: "\<not> described_match (\<lambda>k. False) (\<lambda>k. False) ?xs ?ys 0 3 0 200 (2, 0, 1)"
  proof
    assume "described_match (\<lambda>k. False) (\<lambda>k. False) ?xs ?ys 0 3 0 200 (2, 0, 1)"
    then obtain core mid where s: "selected (\<lambda>k. False) ?xs ?ys 0 3 0 200 core"
      and g1: "greedy False (\<lambda>k. False) ?xs ?ys 0 3 0 200 core mid"
      and g2: "greedy True (\<lambda>k. False) ?xs ?ys 0 3 0 200 mid (2, 0, 1)"
      unfolding described_match_def by blast
    have "2 \<le> snd (snd core)" using selected_size[OF s c] by simp
    moreover have "snd (snd core) \<le> snd (snd mid)" using greedy_size[OF g1] .
    moreover have "snd (snd mid) \<le> 1" using greedy_size[OF g2] by simp
    ultimately show False by simp
  qed
  show ?thesis using j popular_example_eval c n by blast
qed

section \<open>Restoring the two sequences from a delta\<close>

text \<open>
  C4. For every pair of lists \<open>xs\<close> and \<open>ys\<close> of newline-terminated single-line strings,
  \<open>ndiff\<close> with its default parameters returns a delta, \<open>restore\<close> of the delta and 1 is
  \<open>xs\<close>, and \<open>restore\<close> of the delta and 2 is \<open>ys\<close>. (In the embedding the same holds for
  all lists of strings and all junk predicates, \<open>ndiff_restores\<close>: the character matcher of
  \<^verbatim>\<open>_fancyReplace\<close> is asked for a ratio or for opcodes only when its second sequence is not
  empty.)
\<close>

theorem restore_ndiff:
  assumes "\<forall>line\<in>set xs \<union> set ys. newline_terminated line"
  shows "\<exists>delta. ndiff xs ys None None = Inr delta
           \<and> restore delta 1 = Inr xs \<and> restore delta 2 = Inr ys"
  using ndiff_restores[of xs ys None None] .

theorem restore_ndiff_witness:
  "list_all newline_terminated (fixture_a @ fixture_b)
   \<and> (\<exists>delta. ndiff fixture_a fixture_b None None = Inr delta
          \<and> restore delta 1 = Inr fixture_a \<and> restore delta 2 = Inr fixture_b)"
proof -
  have h: "list_all newline_terminated (fixture_a @ fixture_b)"
    by (simp add: fixture_a_def fixture_b_def newline_terminated_def)
  then have "\<forall>line\<in>set fixture_a \<union> set fixture_b. newline_terminated line"
    by (simp add: list_all_iff)
  from restore_ndiff[OF this] h show ?thesis by blast
qed

text \<open>The delta of the example in the documentation of \<^verbatim>\<open>ndiff\<close>.\<close>

lemma fixture_eval:
  "ndiff fixture_a fixture_b None None =
     Inr [''- one'' @ [CHR 0x0A], ''?  ^'' @ [CHR 0x0A], ''+ ore'' @ [CHR 0x0A], ''?  ^'' @ [CHR 0x0A],
          ''- two'' @ [CHR 0x0A], ''- three'' @ [CHR 0x0A], ''?  -'' @ [CHR 0x0A],
          ''+ tree'' @ [CHR 0x0A], ''+ emu'' @ [CHR 0x0A]]"
  by code_simp

section \<open>The matcher constructed on an empty second string\<close>

text \<open>
  The field initializers set both sequences to \<^verbatim>\<open>''\<close>. \<^verbatim>\<open>setSeq2\<close> returns early when its
  argument is \<^verbatim>\<open>===\<close> the current second sequence, so a matcher constructed with the empty
  string as second sequence never runs \<^verbatim>\<open>_chainB\<close>: \<open>b2j\<close> and \<open>isbjunk\<close> stay undefined.
\<close>

text \<open>
  C1 at the first sequence \<^verbatim>\<open>"abc"\<close> and the second sequence \<^verbatim>\<open>""\<close>: \<open>getMatchingBlocks\<close>
  throws a TypeError and returns no list.
\<close>

theorem getMatchingBlocks_empty_second_string:
  "getMatchingBlocks (SequenceMatcher None (Some (Str ''abc'')) (Some (Str '''')) None) = Inl TypeError"
  by (simp add: getMatchingBlocks_def compute_blocks_def findLongestMatch_def longest_core_def
      range_loop_def seq_length_def upto.simps SequenceMatcher_def setSeqs_def setSeq1_def
      setSeq2_def fresh_def)

text \<open>
  C3 at the first sequence \<^verbatim>\<open>["one", "two"]\<close> and the second sequence \<^verbatim>\<open>""\<close>: \<open>getOpcodes\<close>
  throws a TypeError and returns no opcodes.
\<close>

theorem getOpcodes_empty_second_string:
  "getOpcodes (SequenceMatcher None (Some (Arr 0 [''one'', ''two''])) (Some (Str '''')) None) = Inl TypeError"
  by (simp add: getOpcodes_def getMatchingBlocks_def compute_blocks_def findLongestMatch_def
      longest_core_def range_loop_def seq_length_def upto.simps SequenceMatcher_def setSeqs_def
      setSeq1_def setSeq2_def fresh_def)

text \<open>
  C5 at the first sequence \<^verbatim>\<open>"ab"\<close> and the second sequence \<^verbatim>\<open>""\<close>: \<open>realQuickRatio\<close> and
  \<open>quickRatio\<close> return 0, and \<open>ratio\<close> throws a TypeError, so there is no value of \<open>ratio\<close>
  for \<open>quickRatio\<close> to bound.
\<close>

theorem ratio_order_empty_second_string:
  "realQuickRatio (SequenceMatcher None (Some (Str ''ab'')) (Some (Str '''')) None) = 0
   \<and> fst (quickRatio (SequenceMatcher None (Some (Str ''ab'')) (Some (Str '''')) None)) = 0
   \<and> ratio (SequenceMatcher None (Some (Str ''ab'')) (Some (Str '''')) None) = Inl TypeError"
  by (simp add: realQuickRatio_def quickRatio_def calculateRatio_def ratio_def
      getMatchingBlocks_def compute_blocks_def findLongestMatch_def longest_core_def
      range_loop_def seq_length_def upto.simps SequenceMatcher_def setSeqs_def setSeq1_def
      setSeq2_def fresh_def Let_def read_count_def assign_def inherited_def proto_key_def)

text \<open>
  C10 at the first sequence \<^verbatim>\<open>"x"\<close> and the second sequence \<^verbatim>\<open>""\<close>, with a junk predicate
  and autojunk off: \<open>ratio\<close> throws a TypeError and returns no value.
\<close>

theorem ratio_empty_second_string:
  "ratio (SequenceMatcher (Some (\<lambda>c. c = '' '')) (Some (Str ''x'')) (Some (Str '''')) (Some False))
     = Inl TypeError"
  by (simp add: ratio_def getMatchingBlocks_def compute_blocks_def findLongestMatch_def
      longest_core_def range_loop_def seq_length_def upto.simps SequenceMatcher_def setSeqs_def
      setSeq1_def setSeq2_def fresh_def)

text \<open>
  C9 at the word \<^verbatim>\<open>""\<close>, the possibilities \<^verbatim>\<open>["a"]\<close>, \<open>n = 1\<close> and \<open>cutoff = 0\<close>: the arguments
  are valid, and \<open>getCloseMatches\<close> throws the TypeError of \<open>ratio\<close>.
\<close>

theorem getCloseMatches_empty_word:
  "getCloseMatches '''' [''a''] (Some 1) (Some 0) = Inl TypeError"
  by (simp add: getCloseMatches_def realQuickRatio_def quickRatio_def calculateRatio_def ratio_def
      getMatchingBlocks_def compute_blocks_def findLongestMatch_def longest_core_def
      range_loop_def seq_length_def upto.simps SequenceMatcher_def setSeqs_def setSeq1_def
      setSeq2_def fresh_def Let_def read_count_def assign_def inherited_def proto_key_def)

section \<open>The context diff of two groups\<close>

text \<open>
  C6 at two sequences of nine lines that differ in the first and in the last line, with
  \<open>lineterm = ''\<close>: \<open>getGroupedOpcodes\<close> gives two groups, and \<open>contextDiff\<close> emits the
  header and the body of the first group only. The output has one line of asterisks, and
  nothing of the change in the last line.
\<close>

theorem contextDiff_emits_first_group_only:
  "map_sum id fst
     (getGroupedOpcodes None
        (SequenceMatcher None
           (Some (Arr 0 [''x'', ''1'', ''2'', ''3'', ''4'', ''5'', ''6'', ''7'', ''y'']))
           (Some (Arr 1 [''X'', ''1'', ''2'', ''3'', ''4'', ''5'', ''6'', ''7'', ''Y''])) None))
     = Inr [[(Replace, 0, 1, 0, 1), (Equal, 1, 4, 1, 4)],
            [(Equal, 5, 8, 5, 8), (Replace, 8, 9, 8, 9)]]
   \<and> contextDiff (Arr 0 [''x'', ''1'', ''2'', ''3'', ''4'', ''5'', ''6'', ''7'', ''y''])
        (Arr 1 [''X'', ''1'', ''2'', ''3'', ''4'', ''5'', ''6'', ''7'', ''Y''])
        (Some \<lparr>fromfile = None, tofile = None, fromfiledate = None, tofiledate = None,
               opt_n = None, lineterm = Some ''''\<rparr>)
     = Inr [''*** '', ''--- '', ''***************'', ''*** 1,4 ****'', ''! x'', ''  1'', ''  2'',
            ''  3'', ''--- 1,4 ----'', ''! X'', ''  1'', ''  2'', ''  3'']"
  by code_simp

section \<open>Replacing the first sequence\<close>

text \<open>
  C7. For a matcher \<open>m\<close> and a sequence \<open>x\<close> that is not \<^verbatim>\<open>===\<close> the current first sequence,
  \<open>setSeq1 x m\<close> sets the matching-block and opcode caches to null and stores \<open>x\<close>; \<open>b2j\<close>,
  \<open>isbjunk\<close>, \<open>isbpopular\<close>, \<open>fullbcount\<close> and the second sequence (and the junk predicate
  and the autojunk flag) are what they were.
\<close>

theorem setSeq1_frame:
  assumes "\<not> strict_eq x (seq_a m)"
  shows "matchingBlocks (setSeq1 x m) = None \<and> opcodes (setSeq1 x m) = None
       \<and> seq_a (setSeq1 x m) = x
       \<and> b2j (setSeq1 x m) = b2j m
       \<and> isbjunk (setSeq1 x m) = isbjunk m
       \<and> isbpopular (setSeq1 x m) = isbpopular m
       \<and> fullbcount (setSeq1 x m) = fullbcount m
       \<and> seq_b (setSeq1 x m) = seq_b m
       \<and> isjunk (setSeq1 x m) = isjunk m
       \<and> autojunk (setSeq1 x m) = autojunk m"
  using assms by (simp add: setSeq1_def)

theorem setSeq1_frame_witness:
  "\<not> strict_eq (Str ''bcde'') (seq_a (SequenceMatcher None (Some (Str ''abcd'')) (Some (Str ''bcde'')) None))
   \<and> matchingBlocks (setSeq1 (Str ''bcde'') (SequenceMatcher None (Some (Str ''abcd'')) (Some (Str ''bcde'')) None)) = None
   \<and> seq_a (setSeq1 (Str ''bcde'') (SequenceMatcher None (Some (Str ''abcd'')) (Some (Str ''bcde'')) None)) = Str ''bcde''
   \<and> b2j (setSeq1 (Str ''bcde'') (SequenceMatcher None (Some (Str ''abcd'')) (Some (Str ''bcde'')) None))
       = b2j (SequenceMatcher None (Some (Str ''abcd'')) (Some (Str ''bcde'')) None)"
proof -
  have h: "\<not> strict_eq (Str ''bcde'')
             (seq_a (SequenceMatcher None (Some (Str ''abcd'')) (Some (Str ''bcde'')) None))"
    by (simp add: SequenceMatcher_def setSeqs_def setSeq1_def setSeq2_def chainB_frame fresh_def)
  show ?thesis using h setSeq1_frame [OF h] by simp
qed

section \<open>The unified range format\<close>

text \<open>
  C8, as the code has it. For \<open>0 \<le> start \<le> stop < 2^53\<close>, the range in which the additions
  of the code are exact, with \<open>beginning = start + 1\<close> and \<open>length = stop - start\<close>,
  \<open>formatRangeUnified start stop\<close> is \<open>beginning\<close> in decimal when \<open>length = 1\<close>, and otherwise
  the two numbers \<open>beginning,length\<close> separated by a comma, where \<open>beginning\<close> is one less
  when \<open>length = 0\<close>: an empty range is \<open>start,0\<close>.
\<close>

theorem formatRangeUnified_cases:
  assumes "0 \<le> start" and "start \<le> stop" and "stop < 2 ^ 53"
  shows "(stop - start = 1 \<longrightarrow> formatRangeUnified start stop = show_int (start + 1))
       \<and> (stop - start = 0 \<longrightarrow>
            formatRangeUnified start stop = show_int (start + 1 - 1) @ '','' @ show_int (stop - start))
       \<and> (stop - start \<noteq> 1 \<and> stop - start \<noteq> 0 \<longrightarrow>
            formatRangeUnified start stop = show_int (start + 1) @ '','' @ show_int (stop - start))"
  by (simp add: formatRangeUnified_def Let_def)

theorem formatRangeUnified_cases_witness:
  "(0::int) \<le> 3 \<and> (3::int) \<le> 3 \<and> (3::int) < 2 ^ 53
   \<and> formatRangeUnified 3 3 = show_int (3 + 1 - 1) @ '','' @ show_int (3 - 3)"
proof -
  have h1: "(0::int) \<le> 3" and h2: "(3::int) \<le> 3" and h3: "(3::int) < 2 ^ 53" by simp_all
  show ?thesis using formatRangeUnified_cases [OF h1 h2 h3] by simp
qed

text \<open>
  The claim as the specification words it gives an empty range as the single number
  \<open>beginning - 1\<close>. The code returns \<open>3,0\<close> for the empty range at 3, not \<open>3\<close>.
\<close>

theorem formatRangeUnified_empty_counterexample:
  "formatRangeUnified 3 3 = ''3,0'' \<and> formatRangeUnified 3 3 \<noteq> show_int (3 + 1 - 1)"
  by (simp add: formatRangeUnified_def show_int_def Let_def)

lemma formatRange_fixtures:
  "formatRangeUnified 1 2 = ''2''" "formatRangeUnified 1 3 = ''2,2''" "formatRangeUnified 1 4 = ''2,3''"
  "formatRangeContext 1 2 = ''2''" "formatRangeContext 1 3 = ''2,3''" "formatRangeContext 1 4 = ''2,4''"
  by (simp_all add: formatRangeUnified_def formatRangeContext_def show_int_def Let_def)

end
